theory Spec2Isabelle
  imports Main "HOL-Library.Signed_Division"
begin

section \<open>Errors and runtime panics\<close>

text \<open>
  Go error values that occur in the modelled code (\<open>io.EOF\<close>, the package's own
  \<open>ErrNoRoom\<close>, values built with \<open>errors.New\<close>, and the sentinel errors of
  \<open>bufio.Scanner\<close>), and the runtime panics the modelled statements can raise.
\<close>

datatype error =
    EOF
  | ErrNoRoom
  | ErrNoProgress
  | ErrTooLong
  | ErrNegativeAdvance
  | ErrAdvanceTooFar
  | ErrFinalToken
  | ErrBadReadCount
  | ErrorsNew string

datatype panic =
    DivideByZero
  | SliceOutOfRange
  | MakeSliceLenOutOfRange
  | TooManyEmptyTokens
  | CloseOfClosedChannel
  | SendOnClosedChannel

text \<open>
  A statement that can panic returns \<open>panic + 'a\<close>, \<open>Inl\<close> the panic; \<open>pbind\<close> runs the
  next statement on the result of one that did not panic.
\<close>

definition pbind :: "panic + 'a \<Rightarrow> ('a \<Rightarrow> panic + 'b) \<Rightarrow> panic + 'b" where
  "pbind m f = (case m of Inl e \<Rightarrow> Inl e | Inr x \<Rightarrow> f x)"

section \<open>The object tokenizer (\<open>JSONSplit\<close>)\<close>

text \<open>
  A \<open>[]byte\<close> is a \<open>string\<close>: an Isabelle \<open>char\<close> is a byte. The double quote is
  \<open>CHR 0x22\<close> and the backslash is \<open>CHR 0x5C\<close>.
\<close>

text \<open>
  \<open>matchQuote(data, start)\<close>: the loop over \<open>i\<close> is the recursion; the extra \<open>i++\<close> of
  the backslash case together with the loop's own increment gives \<open>i + 2\<close>.
  \<open>(-1, false)\<close> is \<open>None\<close>, \<open>(i, true)\<close> is \<open>Some i\<close>.
\<close>

function matchQuote :: "string \<Rightarrow> nat \<Rightarrow> nat option" where
  "matchQuote data i =
     (if i < length data then
        (if data ! i = CHR 0x5C then matchQuote data (i + 2)
         else if data ! i = CHR 0x22 then Some i
         else matchQuote data (i + 1))
      else None)"
  by pat_completeness auto
termination
  by (relation "measure (\<lambda>(data, i). length data - i)") auto

declare matchQuote.simps [simp del]

text \<open>
  \<open>matchBrace(data, start)\<close>: running the loop from index \<open>i\<close> is the same computation
  as the call \<open>matchBrace(data, i)\<close>, so the loop's continuation after \<open>i = newi\<close> and
  the increment is \<open>matchBrace data (newi + 1)\<close>.
\<close>

function matchBrace :: "string \<Rightarrow> nat \<Rightarrow> nat option" where
  "matchBrace data i =
     (if i < length data then
        (if data ! i = CHR ''}'' then Some i
         else if data ! i = CHR 0x22 then
           (case matchQuote data (i + 1) of
              None \<Rightarrow> None
            | Some newi \<Rightarrow> matchBrace data (newi + 1))
         else if data ! i = CHR ''{'' then
           (case matchBrace data (i + 1) of
              None \<Rightarrow> None
            | Some newi \<Rightarrow> matchBrace data (newi + 1))
         else matchBrace data (i + 1))
      else None)"
  by pat_completeness auto

lemma matchQuote_ge: "matchQuote data i = Some r \<Longrightarrow> i \<le> r"
proof (induction data i rule: matchQuote.induct)
  case (1 data i)
  then show ?case
    by (subst (asm) (3) matchQuote.simps) (fastforce split: if_splits)
qed

lemma matchBrace_dom_ge:
  "matchBrace_dom (data, i) \<Longrightarrow> matchBrace data i = Some r \<Longrightarrow> i \<le> r"
proof (induction data i arbitrary: r rule: matchBrace.pinduct)
  case (1 data i)
  note eq = "1.prems" [unfolded matchBrace.psimps [OF "1.hyps"]]
  from eq have lt: "i < length data" by (simp split: if_splits)
  consider (close) "data ! i = CHR ''}''"
    | (quote) "data ! i \<noteq> CHR ''}''" "data ! i = CHR 0x22"
    | (opn) "data ! i \<noteq> CHR ''}''" "data ! i \<noteq> CHR 0x22" "data ! i = CHR ''{''"
    | (other) "data ! i \<noteq> CHR ''}''" "data ! i \<noteq> CHR 0x22" "data ! i \<noteq> CHR ''{''"
    by blast
  then show ?case
  proof cases
    case close
    with eq lt show ?thesis by simp
  next
    case quote
    with eq lt obtain newi where q: "matchQuote data (i + 1) = Some newi"
      and b: "matchBrace data (newi + 1) = Some r"
      by (auto split: option.splits)
    from "1.IH"(1) [OF lt quote q b] matchQuote_ge [OF q] show ?thesis by simp
  next
    case opn
    with eq lt obtain newi where q: "matchBrace data (i + 1) = Some newi"
      and b: "matchBrace data (newi + 1) = Some r"
      by (auto split: option.splits)
    from "1.IH"(2) [OF lt opn q] have "i + 1 \<le> newi" .
    moreover from "1.IH"(3) [OF lt opn q b] have "newi + 1 \<le> r" .
    ultimately show ?thesis by simp
  next
    case other
    with eq lt have b: "matchBrace data (i + 1) = Some r" by simp
    from "1.IH"(4) [OF lt other b] show ?thesis by simp
  qed
qed

termination matchBrace
proof (relation "measure (\<lambda>(data, i). length data - i)", goal_cases)
  case 1
  show ?case by simp
next
  case (2 data i newi)
  then show ?case using matchQuote_ge [of data "i + 1" newi] by simp
next
  case (3 data i)
  then show ?case by simp
next
  case (4 data i newi)
  then show ?case using matchBrace_dom_ge [of data "i + 1" newi] by simp
next
  case (5 data i)
  then show ?case by simp
qed

declare matchBrace.simps [simp del]


text \<open>
  \<open>bytes.IndexByte(data, c)\<close> of the Go library: the index of the first \<open>c\<close> in
  \<open>data\<close>; \<open>-1\<close> is \<open>None\<close>.
\<close>

fun IndexByte :: "string \<Rightarrow> char \<Rightarrow> nat option" where
  "IndexByte [] c = None"
| "IndexByte (x # xs) c = (if x = c then Some 0 else map_option Suc (IndexByte xs c))"

text \<open>
  The result \<open>(advance, token, err)\<close> of a \<open>bufio.SplitFunc\<close>: a \<open>nil\<close> token and a
  \<open>nil\<close> error are \<open>None\<close>. \<open>data[start:end]\<close> is \<open>take (end - start) (drop start data)\<close>;
  the indices are in range there (\<open>matchBrace_lt\<close> below), so the slice cannot panic.
\<close>

type_synonym split_result = "int \<times> string option \<times> error option"

definition JSONSplit :: "string \<Rightarrow> bool \<Rightarrow> split_result" where
  "JSONSplit data atEOF =
     (if atEOF \<and> length data = 0 then (0, None, None)
      else case IndexByte data (CHR ''{'') of
        None \<Rightarrow> (0, None, None)
      | Some start \<Rightarrow>
          (case matchBrace data (start + 1) of
             None \<Rightarrow>
               if atEOF then (0, None, Some (ErrorsNew ''incomplete JSON object''))
               else (0, None, None)
           | Some e \<Rightarrow>
               (let end = e + 1
                in (int end, Some (take (end - start) (drop start data)), None))))"

subsection \<open>The tokenizer as the specification words it\<close>

text \<open>
  The specification's depth-aware scan, as one left-to-right pass: \<open>brace_scan d m i bs\<close>
  reads the bytes \<open>bs\<close>, the first of which has index \<open>i\<close>, with \<open>d\<close> nested objects open
  inside the object being matched. Outside a string literal \<open>{\<close> opens a nested object,
  \<open>}\<close> closes the innermost open one and a double quote opens a string literal; inside a
  string literal a backslash escapes the next byte, a double quote closes the literal and no
  other byte is a delimiter. The result is the index of the \<open>}\<close> that closes the object
  being matched, or \<open>None\<close> when the bytes end first.
\<close>

datatype scan_mode = InObject | InString | Escaped

fun brace_scan :: "nat \<Rightarrow> scan_mode \<Rightarrow> nat \<Rightarrow> string \<Rightarrow> nat option" where
  "brace_scan d m i [] = None"
| "brace_scan d InObject i (c # cs) =
     (if c = CHR ''}'' then (if d = 0 then Some i else brace_scan (d - 1) InObject (i + 1) cs)
      else if c = CHR ''{'' then brace_scan (d + 1) InObject (i + 1) cs
      else if c = CHR 0x22 then brace_scan d InString (i + 1) cs
      else brace_scan d InObject (i + 1) cs)"
| "brace_scan d InString i (c # cs) =
     (if c = CHR 0x5C then brace_scan d Escaped (i + 1) cs
      else if c = CHR 0x22 then brace_scan d InObject (i + 1) cs
      else brace_scan d InString (i + 1) cs)"
| "brace_scan d Escaped i (c # cs) = brace_scan d InString (i + 1) cs"

text \<open>The index of the first \<open>{\<close> of a window, in the specification's words.\<close>

definition first_open_brace :: "string \<Rightarrow> nat \<Rightarrow> bool" where
  "first_open_brace data s \<longleftrightarrow>
     s < length data \<and> data ! s = CHR ''{'' \<and> (\<forall>j < s. data ! j \<noteq> CHR ''{'')"

section \<open>Go slices, integers and channels\<close>

text \<open>
  Go's \<open>int\<close> is modelled as \<open>int\<close>: the integers of this code are lengths of, and offsets
  into, allocated byte slices, far below \<open>2^63\<close>. The one integer a caller chooses freely
  is the argument of \<open>Consume\<close>; there the model is the source's computation exactly when
  the sums stay within 64 bits (\<open>consume_in_range\<close> below), and the properties of
  \<open>Consume\<close> are stated for that range. \<open>a % b\<close> truncates towards zero (\<open>smod\<close>) and
  panics when \<open>b\<close> is zero; \<open>a / b\<close> is \<open>sdiv\<close>.
\<close>

definition go_rem :: "int \<Rightarrow> int \<Rightarrow> panic + int" where
  "go_rem a b = (if b = 0 then Inl DivideByZero else Inr (a smod b))"

text \<open>\<open>make([]byte, n)\<close>: \<open>n\<close> zero bytes; a negative length panics.\<close>

definition go_make :: "int \<Rightarrow> panic + string" where
  "go_make n = (if n < 0 then Inl MakeSliceLenOutOfRange else Inr (replicate (nat n) (CHR 0x00)))"

text \<open>
  \<open>xs[lo:hi]\<close> read as a value. Every slice here was made with its capacity equal to its
  length, so the bound of \<open>hi\<close> is the length.
\<close>

definition go_slice :: "'a list \<Rightarrow> int \<Rightarrow> int \<Rightarrow> panic + 'a list" where
  "go_slice xs lo hi =
     (if 0 \<le> lo \<and> lo \<le> hi \<and> hi \<le> int (length xs)
      then Inr (take (nat (hi - lo)) (drop (nat lo) xs))
      else Inl SliceOutOfRange)"

text \<open>
  \<open>n = copy(dst[lo:hi], src)\<close>: the first \<open>n = min (hi - lo) (len src)\<close> bytes of \<open>src\<close>
  overwrite \<open>dst\<close> from offset \<open>lo\<close>; the result is the updated \<open>dst\<close> and \<open>n\<close>.
\<close>

definition go_copy :: "'a list \<Rightarrow> int \<Rightarrow> int \<Rightarrow> 'a list \<Rightarrow> panic + ('a list \<times> int)" where
  "go_copy dst lo hi src =
     (if 0 \<le> lo \<and> lo \<le> hi \<and> hi \<le> int (length dst)
      then (let n = min (nat (hi - lo)) (length src)
            in Inr (take (nat lo) dst @ take n src @ drop (nat lo + n) dst, int n))
      else Inl SliceOutOfRange)"

text \<open>
  A \<open>chan struct{}\<close> made with a buffer of one slot: \<open>pending\<close> says that the slot holds
  a value. The sent values carry no data.
\<close>

record chan =
  pending :: bool
  chclosed :: bool

definition make_chan :: chan where
  "make_chan = \<lparr>pending = False, chclosed = False\<rparr>"

text \<open>
  \<open>select { case ch <- struct{}{}: default: }\<close>: the send goes through when the slot is
  free and is dropped when it is taken; a send on a closed channel panics.
\<close>

definition chan_try_send :: "chan \<Rightarrow> panic + chan" where
  "chan_try_send ch =
     (if chclosed ch then Inl SendOnClosedChannel else Inr (ch\<lparr>pending := True\<rparr>))"

text \<open>\<open>close(ch)\<close>: closing a closed channel panics.\<close>

definition chan_close :: "chan \<Rightarrow> panic + chan" where
  "chan_close ch =
     (if chclosed ch then Inl CloseOfClosedChannel else Inr (ch\<lparr>chclosed := True\<rparr>))"

text \<open>
  \<open><-ch\<close>: a pending value is taken; a closed channel with nothing pending yields the zero
  value at once; otherwise the receiver blocks, which is \<open>None\<close>.
\<close>

definition chan_recv :: "chan \<Rightarrow> chan option" where
  "chan_recv ch =
     (if pending ch then Some (ch\<lparr>pending := False\<rparr>)
      else if chclosed ch then Some ch
      else None)"

section \<open>The circular buffer\<close>

text \<open>
  The struct \<open>CircularBuffer\<close>. The mutex is not modelled: every method holds it for its
  whole body, so the methods are atomic steps on the record.
\<close>

record CircularBuffer =
  C :: chan
  buf :: string
  len :: int
  index :: int
  closed :: bool

definition NewCircularBuffer :: "int \<Rightarrow> panic + CircularBuffer" where
  "NewCircularBuffer capacity =
     pbind (go_make capacity) (\<lambda>b.
       Inr \<lparr>C = make_chan, buf = b, len = 0, index = 0, closed = False\<rparr>)"

definition Capacity :: "CircularBuffer \<Rightarrow> int" where
  "Capacity c = int (length (buf c))"

definition Len :: "CircularBuffer \<Rightarrow> int" where
  "Len c = len c"

definition addLen :: "CircularBuffer \<Rightarrow> int \<Rightarrow> panic + CircularBuffer" where
  "addLen c n =
     (let c1 = c\<lparr>len := len c + n\<rparr>
      in if len c1 \<noteq> 0 \<and> \<not> closed c1
         then pbind (chan_try_send (C c1)) (\<lambda>ch. Inr (c1\<lparr>C := ch\<rparr>))
         else Inr c1)"

text \<open>
  The statements of \<open>Write\<close> after its two guards, which both versions of the file share
  (lines 73 to 86, and 254 to 267): the result is the buffer, \<open>n\<close> and a \<open>nil\<close> error.
\<close>

definition write_at_tail :: "CircularBuffer \<Rightarrow> string \<Rightarrow> panic + (CircularBuffer \<times> int \<times> error option)" where
  "write_at_tail c p =
     pbind (go_rem (index c + len c) (int (length (buf c)))) (\<lambda>startWritingAt.
       let leftBeforeEnd = int (length (buf c)) - startWritingAt
       in if int (length p) < leftBeforeEnd then
            pbind (go_copy (buf c) startWritingAt (int (length (buf c))) p) (\<lambda>(b1, n).
            pbind (addLen (c\<lparr>buf := b1\<rparr>) (int (length p))) (\<lambda>c1.
              Inr (c1, n, None)))
          else
            pbind (go_slice p 0 leftBeforeEnd) (\<lambda>p1.
            pbind (go_copy (buf c) startWritingAt (int (length (buf c))) p1) (\<lambda>(b1, n1).
            pbind (go_slice p leftBeforeEnd (int (length p))) (\<lambda>p2.
            pbind (go_copy b1 0 startWritingAt p2) (\<lambda>(b2, n2).
            pbind (addLen (c\<lparr>buf := b2\<rparr>) (int (length p))) (\<lambda>c1.
              Inr (c1, n1 + n2, None)))))))"

text \<open>\<open>Write\<close> of the fixed-capacity version (line 63): no room is \<open>ErrNoRoom\<close>.\<close>

definition Write :: "CircularBuffer \<Rightarrow> string \<Rightarrow> panic + (CircularBuffer \<times> int \<times> error option)" where
  "Write c p =
     (if closed c then Inr (c, 0, Some EOF)
      else if int (length p) > int (length (buf c)) - len c then Inr (c, 0, Some ErrNoRoom)
      else write_at_tail c p)"

text \<open>
  \<open>Peek\<close> (line 102) and \<open>peek\<close> (line 353) have the same body. The destination \<open>p\<close> is
  returned updated, with \<open>n\<close> and the error.
\<close>

definition peek :: "CircularBuffer \<Rightarrow> string \<Rightarrow> panic + (string \<times> int \<times> error option)" where
  "peek c p =
     (if len c = 0 \<and> closed c then Inr (p, 0, Some EOF)
      else
        let l = (if int (length p) > len c then len c else int (length p));
            leftBeforeEnd = int (length (buf c)) - index c
        in if l < leftBeforeEnd then
             pbind (go_slice (buf c) (index c) (index c + l)) (\<lambda>src.
             pbind (go_copy p 0 (int (length p)) src) (\<lambda>(p1, n).
               Inr (p1, n, None)))
           else
             pbind (go_slice (buf c) (index c) (int (length (buf c)))) (\<lambda>src1.
             pbind (go_copy p 0 (int (length p)) src1) (\<lambda>(p1, n1).
             pbind (go_slice (buf c) 0 (l - n1)) (\<lambda>src2.
             pbind (go_copy p1 n1 (int (length p)) src2) (\<lambda>(p2, n2).
               Inr (p2, n1 + n2, None))))))"

definition Peek :: "CircularBuffer \<Rightarrow> string \<Rightarrow> panic + (string \<times> int \<times> error option)" where
  "Peek c p = peek c p"



definition consume :: "CircularBuffer \<Rightarrow> int \<Rightarrow> panic + (CircularBuffer \<times> int)" where
  "consume c n =
     (let n1 = (if n > len c then len c else n)
      in pbind (go_rem (index c + n1) (int (length (buf c)))) (\<lambda>i.
         pbind (addLen (c\<lparr>index := i\<rparr>) (- n1)) (\<lambda>c1.
           Inr (c1, n1))))"

definition Consume :: "CircularBuffer \<Rightarrow> int \<Rightarrow> panic + (CircularBuffer \<times> int)" where
  "Consume c n = consume c n"

text \<open>
  \<open>Read\<close> (lines 91 and 272): \<open>Peek\<close>, then \<open>Consume\<close> of what was peeked. The result is
  the buffer, the updated destination, \<open>n\<close> and the error.
\<close>

definition Read :: "CircularBuffer \<Rightarrow> string \<Rightarrow> panic + (CircularBuffer \<times> string \<times> int \<times> error option)" where
  "Read c p =
     pbind (peek c p) (\<lambda>(p1, n, err).
       if err \<noteq> None then Inr (c, p1, n, err)
       else pbind (consume c n) (\<lambda>(c1, m). Inr (c1, p1, m, None)))"

text \<open>\<open>Close\<close> (lines 174 and 315).\<close>

definition Close :: "CircularBuffer \<Rightarrow> panic + CircularBuffer" where
  "Close c =
     (let c1 = c\<lparr>closed := True\<rparr>
      in pbind (chan_close (C c1)) (\<lambda>ch. Inr (c1\<lparr>C := ch\<rparr>)))"

text \<open>
  \<open>resize\<close> (line 376) of the growing version: the result is the buffer, the returned
  size and the error.
\<close>

definition resize :: "CircularBuffer \<Rightarrow> int \<Rightarrow> panic + (CircularBuffer \<times> int \<times> error option)" where
  "resize c minSize =
     (let quarters = (if int (length (buf c)) > 8192 then 5 else 8);
          newSize0 = (int (length (buf c)) * quarters) sdiv 4;
          newSize = (if minSize > newSize0 then minSize else newSize0)
      in pbind (go_make newSize) (\<lambda>newbuf.
         pbind (peek c newbuf) (\<lambda>(nb, n, err).
           if err \<noteq> None then Inr (c, int (length (buf c)), err)
           else (let c1 = c\<lparr>buf := nb, index := 0\<rparr>
                 in Inr (c1, int (length (buf c1)), None)))))"

text \<open>\<open>Write\<close> of the growing version (line 241).\<close>

definition WriteGrow :: "CircularBuffer \<Rightarrow> string \<Rightarrow> panic + (CircularBuffer \<times> int \<times> error option)" where
  "WriteGrow c p =
     (if closed c then Inr (c, 0, Some EOF)
      else if int (length p) > int (length (buf c)) - len c then
        pbind (resize c (int (length p) + len c)) (\<lambda>(c1, sz, err).
          if err \<noteq> None then Inr (c1, 0, err)
          else write_at_tail c1 p)
      else write_at_tail c p)"

subsection \<open>The invariant of the buffer and its logical contents\<close>

text \<open>
  The data model's invariant: \<open>0 \<le> length \<le> capacity\<close> and \<open>0 \<le> cursor < capacity\<close> (a
  buffer made with capacity zero has its cursor at zero), and the notification channel is
  closed only when the buffer is. The logical contents are the \<open>len\<close> bytes from \<open>index\<close>
  on, wrapping at the physical end.
\<close>

definition buffer_inv :: "CircularBuffer \<Rightarrow> bool" where
  "buffer_inv c \<longleftrightarrow>
     0 \<le> index c \<and> 0 \<le> len c \<and> len c \<le> int (length (buf c)) \<and>
     (index c < int (length (buf c)) \<or> (buf c = [] \<and> index c = 0)) \<and>
     (chclosed (C c) \<longrightarrow> closed c)"

definition contents :: "CircularBuffer \<Rightarrow> string" where
  "contents c =
     take (nat (len c)) (drop (nat (index c)) (buf c) @ take (nat (index c)) (buf c))"


subsection \<open>Sequences of writes and reads\<close>

text \<open>
  A caller's sequence of \<open>Write(p)\<close> and \<open>Read(p)\<close> calls on one buffer, run in order:
  \<open>run_ops\<close> returns the final buffer, the bytes that the reads returned (the first \<open>n\<close>
  bytes of each destination), concatenated, and the error of each call.
\<close>

datatype op = OpWrite string | OpRead string

fun run_ops :: "CircularBuffer \<Rightarrow> op list \<Rightarrow> panic + (CircularBuffer \<times> string \<times> error option list)" where
  "run_ops c [] = Inr (c, [], [])"
| "run_ops c (OpWrite p # ops) =
     (case Write c p of
        Inl e \<Rightarrow> Inl e
      | Inr (c1, n, err) \<Rightarrow>
          (case run_ops c1 ops of
             Inl e \<Rightarrow> Inl e
           | Inr (c2, rd, errs) \<Rightarrow> Inr (c2, rd, err # errs)))"
| "run_ops c (OpRead p # ops) =
     (case Read c p of
        Inl e \<Rightarrow> Inl e
      | Inr (c1, p1, n, err) \<Rightarrow>
          (case run_ops c1 ops of
             Inl e \<Rightarrow> Inl e
           | Inr (c2, rd, errs) \<Rightarrow> Inr (c2, take (nat n) p1 @ rd, err # errs)))"

text \<open>The bytes passed to the writes of a sequence, concatenated.\<close>

fun written :: "op list \<Rightarrow> string" where
  "written [] = []"
| "written (OpWrite p # ops) = p @ written ops"
| "written (OpRead p # ops) = written ops"

text \<open>
  The specification's side condition of the round trip: starting from occupancy \<open>occ\<close>, no
  write of the sequence takes the occupancy above the capacity \<open>cap\<close>; a read into a
  destination of length \<open>n\<close> lowers the occupancy by \<open>min n occ\<close>.
\<close>

fun within_capacity :: "nat \<Rightarrow> nat \<Rightarrow> op list \<Rightarrow> bool" where
  "within_capacity cap occ [] = True"
| "within_capacity cap occ (OpWrite p # ops) =
     (occ + length p \<le> cap \<and> within_capacity cap (occ + length p) ops)"
| "within_capacity cap occ (OpRead p # ops) =
     within_capacity cap (occ - min (length p) occ) ops"

text \<open>
  The growth policy in the specification's words: the target is double the capacity when
  the capacity is at most 8192 bytes and 125 percent of it (rounded down) otherwise; the
  requested size is used when it exceeds the target.
\<close>

definition grow_target :: "int \<Rightarrow> int \<Rightarrow> int" where
  "grow_target cap requested =
     (let target = (if cap \<le> 8192 then 2 * cap else (cap * 5) div 4)
      in if requested > target then requested else target)"


section \<open>The scanner of the Go library\<close>

text \<open>
  \<open>bufio.Scanner\<close> belongs to the Go standard library; the filter's consumer drives it, so
  it is modelled here from the library's source (as of the Go release the repository was
  written against). The scanner's storage \<open>s.buf\<close> is represented by its length
  \<open>sbuf_len\<close>, the offset \<open>sstart\<close> and the bytes \<open>swindow = s.buf[s.start:s.end]\<close>, so
  \<open>s.end\<close> is \<open>sstart + length swindow\<close>; the bytes outside the window are never read. The
  reader \<open>s.r\<close> is the filter's circular buffer and is passed along explicitly.
\<close>

type_synonym SplitFunc = "string \<Rightarrow> bool \<Rightarrow> split_result"

record Scanner =
  sbuf_len :: nat
  sstart :: nat
  swindow :: string
  stoken :: "string option"
  serr :: "error option"
  sdone :: bool
  sempties :: nat

definition maxTokenSize :: nat where
  "maxTokenSize = 64 * 1024"

definition startBufSize :: nat where
  "startBufSize = 4096"

definition maxConsecutiveEmptyReads :: nat where
  "maxConsecutiveEmptyReads = 100"

definition maxInt :: int where
  "maxInt = 2 ^ 63 - 1"

definition NewScanner :: Scanner where
  "NewScanner =
     \<lparr>sbuf_len = 0, sstart = 0, swindow = [], stoken = None, serr = None, sdone = False,
      sempties = 0\<rparr>"

definition setErr :: "Scanner \<Rightarrow> error \<Rightarrow> Scanner" where
  "setErr s e = (if serr s = None \<or> serr s = Some EOF then s\<lparr>serr := Some e\<rparr> else s)"

definition advance :: "Scanner \<Rightarrow> int \<Rightarrow> bool \<times> Scanner" where
  "advance s n =
     (if n < 0 then (False, setErr s ErrNegativeAdvance)
      else if n > int (length (swindow s)) then (False, setErr s ErrAdvanceTooFar)
      else (True, s\<lparr>sstart := sstart s + nat n, swindow := drop (nat n) (swindow s)\<rparr>))"

definition Err :: "Scanner \<Rightarrow> error option" where
  "Err s = (if serr s = Some EOF then None else serr s)"

text \<open>\<open>Bytes\<close> returns \<open>s.token\<close>; a \<open>nil\<close> slice is handed on as the empty byte string.\<close>

definition Bytes :: "Scanner \<Rightarrow> string" where
  "Bytes s = (case stoken s of None \<Rightarrow> [] | Some t \<Rightarrow> t)"

text \<open>
  The first part of an iteration of \<open>Scan\<close>'s loop: with bytes in the window, or an error
  recorded, the split function is tried. \<open>Inl (ok, s)\<close> is \<open>Scan\<close> returning \<open>ok\<close>; \<open>Inr s\<close>
  goes on to read more input.
\<close>

definition scan_try_token :: "SplitFunc \<Rightarrow> Scanner \<Rightarrow> panic + ((bool \<times> Scanner) + Scanner)" where
  "scan_try_token split s =
     (if swindow s \<noteq> [] \<or> serr s \<noteq> None then
        (case split (swindow s) (serr s \<noteq> None) of (adv, token, err) \<Rightarrow>
           (case err of
              Some e \<Rightarrow>
                if e = ErrFinalToken then Inr (Inl (True, s\<lparr>stoken := token, sdone := True\<rparr>))
                else Inr (Inl (False, setErr s e))
            | None \<Rightarrow>
                (case advance s adv of
                   (False, s1) \<Rightarrow> Inr (Inl (False, s1))
                 | (True, s1) \<Rightarrow>
                     (let s2 = s1\<lparr>stoken := token\<rparr>
                      in if token \<noteq> None then
                           (if serr s2 = None \<or> adv > 0 then Inr (Inl (True, s2\<lparr>sempties := 0\<rparr>))
                            else if sempties s2 + 1 > maxConsecutiveEmptyReads
                              then Inl TooManyEmptyTokens
                            else Inr (Inl (True, s2\<lparr>sempties := sempties s2 + 1\<rparr>)))
                         else Inr (Inr s2)))))
      else Inr (Inr s))"

text \<open>
  Making room before a read: the window is moved to the front of the storage when that
  frees space, and full storage is doubled up to \<open>maxTokenSize\<close>, beyond which \<open>Scan\<close>
  returns with \<open>ErrTooLong\<close>.
\<close>

definition scan_make_room :: "Scanner \<Rightarrow> (bool \<times> Scanner) + Scanner" where
  "scan_make_room s =
     (let s1 = (if sstart s > 0 \<and>
                   (sstart s + length (swindow s) = sbuf_len s \<or> sstart s > sbuf_len s div 2)
                then s\<lparr>sstart := 0\<rparr> else s)
      in if sstart s1 + length (swindow s1) = sbuf_len s1 then
           (if sbuf_len s1 \<ge> maxTokenSize \<or> int (sbuf_len s1) > maxInt div 2
            then Inl (False, setErr s1 ErrTooLong)
            else
              (let newSize0 = sbuf_len s1 * 2;
                   newSize1 = (if newSize0 = 0 then startBufSize else newSize0);
                   newSize = (if newSize1 > maxTokenSize then maxTokenSize else newSize1)
               in Inr (s1\<lparr>sbuf_len := newSize, sstart := 0\<rparr>)))
         else Inr s1)"

text \<open>
  The inner read loop: \<open>read_loop k\<close> is the loop with \<open>k\<close> more empty reads allowed before
  \<open>ErrNoProgress\<close>, entered with \<open>k = maxConsecutiveEmptyReads\<close>. The destination of a read
  is the free end \<open>s.buf[s.end:len(s.buf)]\<close> of the storage, whose stale bytes are given as
  zeros; only the \<open>n\<close> bytes read enter the window.
\<close>

fun read_loop :: "nat \<Rightarrow> Scanner \<Rightarrow> CircularBuffer \<Rightarrow> panic + (Scanner \<times> CircularBuffer)" where
  "read_loop k s cb =
     (let room = sbuf_len s - (sstart s + length (swindow s))
      in case Read cb (replicate room (CHR 0x00)) of
           Inl pn \<Rightarrow> Inl pn
         | Inr (cb1, p1, n, err) \<Rightarrow>
             if n < 0 \<or> int room < n then Inr (setErr s ErrBadReadCount, cb1)
             else
               (let s1 = s\<lparr>swindow := swindow s @ take (nat n) p1\<rparr>
                in case err of
                     Some e \<Rightarrow> Inr (setErr s1 e, cb1)
                   | None \<Rightarrow>
                       if n > 0 then Inr (s1\<lparr>sempties := 0\<rparr>, cb1)
                       else (case k of
                               0 \<Rightarrow> Inr (setErr s1 ErrNoProgress, cb1)
                             | Suc k1 \<Rightarrow> read_loop k1 s1 cb1)))"

declare read_loop.simps [simp del]

text \<open>
  One iteration of \<open>Scan\<close>'s loop: \<open>Inr (Inl (ok, s, cb))\<close> is \<open>Scan\<close> returning \<open>ok\<close>,
  \<open>Inr (Inr (s, cb))\<close> is the next iteration.
\<close>

definition scan_step ::
  "SplitFunc \<Rightarrow> Scanner \<Rightarrow> CircularBuffer \<Rightarrow>
     panic + ((bool \<times> Scanner \<times> CircularBuffer) + (Scanner \<times> CircularBuffer))" where
  "scan_step split s cb =
     (case scan_try_token split s of
        Inl pn \<Rightarrow> Inl pn
      | Inr (Inl (ok, s1)) \<Rightarrow> Inr (Inl (ok, s1, cb))
      | Inr (Inr s1) \<Rightarrow>
          if serr s1 \<noteq> None then Inr (Inl (False, s1\<lparr>sstart := 0, swindow := []\<rparr>, cb))
          else
            (case scan_make_room s1 of
               Inl (ok, s2) \<Rightarrow> Inr (Inl (ok, s2, cb))
             | Inr s2 \<Rightarrow>
                 (case read_loop maxConsecutiveEmptyReads s2 cb of
                    Inl pn \<Rightarrow> Inl pn
                  | Inr (s3, cb1) \<Rightarrow> Inr (Inr (s3, cb1)))))"

text \<open>
  \<open>Scan\<close>'s loop ends: an iteration that goes round again has read at least one byte out
  of the circular buffer or has recorded an error, and with an error recorded the next
  iteration returns.
\<close>

lemma consume_len:
  "consume c n = Inr (c1, m) \<Longrightarrow> len c1 = len c - m \<and> m \<le> len c"
  by (auto simp: consume_def addLen_def Let_def pbind_def go_rem_def chan_try_send_def
      split: sum.splits if_splits)

lemma Read_len:
  assumes "Read cb p = Inr (cb1, p1, n, None)"
  shows "len cb1 = len cb - n \<and> n \<le> len cb"
proof -
  from assms obtain p2 n2 where "consume cb n2 = Inr (cb1, n)"
    by (auto simp: Read_def pbind_def split: sum.splits prod.splits if_splits)
  then show ?thesis by (rule consume_len)
qed

lemma setErr_sets: "serr s = None \<Longrightarrow> serr (setErr s e) \<noteq> None"
  by (simp add: setErr_def)

lemma read_loop_progress:
  "read_loop k s cb = Inr (s3, cb3) \<Longrightarrow> serr s = None \<Longrightarrow>
     serr s3 \<noteq> None \<or> nat (len cb3) < nat (len cb)"
proof (induction k arbitrary: s cb)
  case 0
  let ?room = "sbuf_len s - (sstart s + length (swindow s))"
  from "0.prems"(1) obtain cb1 p1 n err where
    R: "Read cb (replicate ?room (CHR 0x00)) = Inr (cb1, p1, n, err)"
    by (subst (asm) read_loop.simps) (auto simp: Let_def split: sum.splits)
  show ?case
  proof (cases "n < 0 \<or> int ?room < n \<or> err \<noteq> None \<or> n = 0")
    case True
    with "0.prems" R show ?thesis
      by (subst (asm) read_loop.simps) (auto simp: Let_def setErr_def split: if_splits option.splits)
  next
    case False
    then have e: "err = None" and n: "0 < n" by auto
    from Read_len [OF R [unfolded e]] n have "nat (len cb1) < nat (len cb)" by linarith
    moreover from "0.prems"(1) R False have "cb3 = cb1"
      by (subst (asm) read_loop.simps) (auto simp: Let_def split: if_splits option.splits)
    ultimately show ?thesis by simp
  qed
next
  case (Suc k)
  let ?room = "sbuf_len s - (sstart s + length (swindow s))"
  from Suc.prems(1) obtain cb1 p1 n err where
    R: "Read cb (replicate ?room (CHR 0x00)) = Inr (cb1, p1, n, err)"
    by (subst (asm) read_loop.simps) (auto simp: Let_def split: sum.splits)
  show ?case
  proof (cases "n < 0 \<or> int ?room < n \<or> err \<noteq> None")
    case True
    with Suc.prems R show ?thesis
      by (subst (asm) read_loop.simps) (auto simp: Let_def setErr_def split: if_splits option.splits)
  next
    case False
    then have e: "err = None" by simp
    note rl = Read_len [OF R [unfolded e]]
    show ?thesis
    proof (cases "0 < n")
      case True
      with rl have "nat (len cb1) < nat (len cb)" by linarith
      moreover from Suc.prems(1) R False True have "cb3 = cb1"
        by (subst (asm) read_loop.simps) (auto simp: Let_def split: if_splits option.splits)
      ultimately show ?thesis by simp
    next
      case n0: False
      with False have n: "n = 0" by simp
      from Suc.prems(1) R False n have
        rec: "read_loop k (s\<lparr>swindow := swindow s @ take (nat n) p1\<rparr>) cb1 = Inr (s3, cb3)"
        by (subst (asm) read_loop.simps) (simp add: Let_def e)
      from Suc.IH [OF rec] Suc.prems(2) rl n show ?thesis by simp
    qed
  qed
qed

lemma scan_try_token_err:
  "scan_try_token split s = Inr (Inr s1) \<Longrightarrow> serr s1 = serr s"
  by (auto simp: scan_try_token_def advance_def Let_def
      split: if_splits prod.splits option.splits bool.splits)

lemma scan_make_room_err:
  "scan_make_room s = Inr s1 \<Longrightarrow> serr s1 = serr s"
  by (auto simp: scan_make_room_def Let_def split: if_splits)

lemma scan_step_decreases:
  assumes "scan_step split s cb = Inr (Inr (s3, cb3))"
  shows "(if serr s3 = None then 1 + nat (len cb3) else 0)
           < (if serr s = None then 1 + nat (len cb) else 0)"
proof -
  from assms obtain s1 s2 where
    t: "scan_try_token split s = Inr (Inr s1)" and e1: "serr s1 = None"
    and m: "scan_make_room s1 = Inr s2"
    and r: "read_loop maxConsecutiveEmptyReads s2 cb = Inr (s3, cb3)"
    by (auto simp: scan_step_def split: sum.splits prod.splits if_splits)
  from scan_try_token_err [OF t] e1 have e: "serr s = None" by simp
  from scan_make_room_err [OF m] e1 have e2: "serr s2 = None" by simp
  from read_loop_progress [OF r e2] e show ?thesis by auto
qed


text \<open>The loop of \<open>Scan\<close>, and \<open>Scan\<close>.\<close>

function scan_loop ::
  "SplitFunc \<Rightarrow> Scanner \<Rightarrow> CircularBuffer \<Rightarrow> panic + (bool \<times> Scanner \<times> CircularBuffer)" where
  "scan_loop split s cb =
     (case scan_step split s cb of
        Inl pn \<Rightarrow> Inl pn
      | Inr (Inl r) \<Rightarrow> Inr r
      | Inr (Inr (s1, cb1)) \<Rightarrow> scan_loop split s1 cb1)"
  by pat_completeness auto
termination
proof (relation "measure (\<lambda>(split, s, cb). if serr s = None then 1 + nat (len cb) else 0)", goal_cases)
  case 1
  show ?case by simp
next
  case (2 split s cb x2 b x1 x2a)
  then have "scan_step split s cb = Inr (Inr (x1, x2a))" by simp
  from scan_step_decreases [OF this] show ?case by simp
qed

declare scan_loop.simps [simp del]

definition Scan ::
  "SplitFunc \<Rightarrow> Scanner \<Rightarrow> CircularBuffer \<Rightarrow> panic + (bool \<times> Scanner \<times> CircularBuffer)" where
  "Scan split s cb = (if sdone s then Inr (False, s, cb) else scan_loop split s cb)"

section \<open>The filter\<close>

text \<open>
  A \<open>map[string]interface{}\<close> is a map from strings to values; an \<open>Interpreter\<close> is its
  method \<open>Interpret(data, fields)\<close>, which returns the bytes it leaves and the fields. The
  interpreters themselves are outside the sources.
\<close>

datatype ival = VString string | VNumber int | VBool bool

type_synonym fieldset = "string \<rightharpoonup> ival"

type_synonym Interpreter = "string \<Rightarrow> fieldset \<Rightarrow> string \<times> fieldset"

text \<open>
  The struct \<open>Filter\<close>, and the state of the goroutine that \<open>NewFilter\<close> starts: the
  splitter it was given, its scanner, and the calls of \<open>output\<close> so far, oldest first. The
  circular buffer of the filter package is not among the sources; it is taken to be the one
  of the honeycomb package, in its fixed-capacity version.
\<close>

record Filter =
  Interpreters :: "Interpreter list"
  cbuf :: CircularBuffer

record engine = Filter +
  splitter :: SplitFunc
  scanner :: Scanner
  outputs :: "fieldset list"

definition NewFilter :: "SplitFunc \<Rightarrow> Interpreter list \<Rightarrow> panic + engine" where
  "NewFilter split terps =
     pbind (NewCircularBuffer 4000) (\<lambda>cb.
       Inr \<lparr>Interpreters = terps, cbuf = cb, splitter = split, scanner = NewScanner,
            outputs = []\<rparr>)"

text \<open>\<open>(*Filter).Write\<close> forwards to the circular buffer.\<close>

definition Filter_Write :: "engine \<Rightarrow> string \<Rightarrow> panic + (engine \<times> int \<times> error option)" where
  "Filter_Write f b =
     pbind (Write (cbuf f) b) (\<lambda>(cb, n, err). Inr (f\<lparr>cbuf := cb\<rparr>, n, err))"

text \<open>\<open>err.Error()\<close> of the error values.\<close>

fun error_text :: "error \<Rightarrow> string" where
  "error_text EOF = ''EOF''"
| "error_text ErrNoRoom = ''insufficient capacity''"
| "error_text ErrNoProgress = ''multiple Read calls return no data or error''"
| "error_text ErrTooLong = ''bufio.Scanner: token too long''"
| "error_text ErrNegativeAdvance = ''bufio.Scanner: SplitFunc returns negative advance count''"
| "error_text ErrAdvanceTooFar = ''bufio.Scanner: SplitFunc returns advance count beyond input''"
| "error_text ErrFinalToken = ''final token''"
| "error_text ErrBadReadCount = ''bufio.Scanner: Read returned impossible count''"
| "error_text (ErrorsNew msg) = msg"

text \<open>The message the goroutine emits when the scanner fails with an error.\<close>

definition scanner_failure_record :: "error \<Rightarrow> fieldset" where
  "scanner_failure_record err =
     [''module'' \<mapsto> VString ''filter'', ''level'' \<mapsto> VString ''error'',
      ''error'' \<mapsto> VString (error_text err)]"

text \<open>The loop over \<open>fp.Interpreters\<close>.\<close>

fun run_interpreters :: "Interpreter list \<Rightarrow> string \<Rightarrow> fieldset \<Rightarrow> string \<times> fieldset" where
  "run_interpreters [] data fs = (data, fs)"
| "run_interpreters (i # is) data fs =
     (case i data fs of (data1, fs1) \<Rightarrow> run_interpreters is data1 fs1)"

text \<open>
  The body of the \<open>select\<close> case (lines 40 to 51), run after a receive from \<open>fp.cbuf.C\<close>:
  one call of \<open>Scan\<close>, the failure message when \<open>Scan\<close> failed with an error, and then, in
  every case, the interpreters on \<open>scanner.Bytes()\<close> and \<open>output(fields)\<close> (\<open>fs\<close> here).
\<close>

definition consumer_body :: "engine \<Rightarrow> panic + engine" where
  "consumer_body f =
     pbind (Scan (splitter f) (scanner f) (cbuf f)) (\<lambda>(ok, s1, cb1).
       let out1 = (if \<not> ok then
                     (case Err s1 of
                        Some err \<Rightarrow> outputs f @ [scanner_failure_record err]
                      | None \<Rightarrow> outputs f)
                   else outputs f);
           data = Bytes s1;
           fs = snd (run_interpreters (Interpreters f) data Map.empty)
       in Inr (f\<lparr>cbuf := cb1, scanner := s1, outputs := out1 @ [fs]\<rparr>))"

text \<open>
  The goroutine's \<open>for { select { case <-fp.cbuf.C: ... } }\<close>, run for at most \<open>n\<close>
  iterations. \<open>Waiting\<close>: the task is blocked in the \<open>select\<close>, nothing pending on the open
  channel. \<open>Running\<close>: the \<open>n\<close> iterations are done and the task is about to start the next.
  \<open>Returned\<close>: the function of the goroutine has returned; the loop has no \<open>return\<close> and no
  \<open>break\<close>, so no equation produces it.
\<close>

datatype 'a task_outcome = Returned 'a | Waiting 'a | Running 'a

fun consumer_loop :: "nat \<Rightarrow> engine \<Rightarrow> panic + engine task_outcome" where
  "consumer_loop 0 f = Inr (Running f)"
| "consumer_loop (Suc n) f =
     (case chan_recv (C (cbuf f)) of
        None \<Rightarrow> Inr (Waiting f)
      | Some ch \<Rightarrow>
          (case consumer_body (f\<lparr>cbuf := (cbuf f)\<lparr>C := ch\<rparr>\<rparr>) of
             Inl pn \<Rightarrow> Inl pn
           | Inr f1 \<Rightarrow> consumer_loop n f1))"

text \<open>
  A sample interpreter for the examples: it stores the bytes it is given under the key
  \<open>raw\<close> and leaves none.
\<close>

definition raw_interpreter :: Interpreter where
  "raw_interpreter data fs = ([], fs(''raw'' \<mapsto> VString data))"

text \<open>
  Runs of the whole engine, for the properties below: a new filter after one \<open>Write\<close>, and
  the consumer run for at most \<open>n\<close> iterations on the result.
\<close>

definition filter_written :: "SplitFunc \<Rightarrow> Interpreter list \<Rightarrow> string \<Rightarrow> panic + engine" where
  "filter_written split terps p =
     pbind (NewFilter split terps) (\<lambda>f.
     pbind (Filter_Write f p) (\<lambda>(f1, n, err). Inr f1))"

definition run_consumer :: "nat \<Rightarrow> panic + engine \<Rightarrow> panic + engine task_outcome" where
  "run_consumer n r = pbind r (consumer_loop n)"

text \<open>
  The scanner's rule for split functions that hand out tokens: a token comes with a
  positive advance. \<open>JSONSplit\<close> keeps to it. (A split function that returns tokens without
  advancing makes \<open>Scan\<close> panic after a hundred of them at the end of the input.)
\<close>

definition split_advances :: "SplitFunc \<Rightarrow> bool" where
  "split_advances split \<longleftrightarrow>
     (\<forall>data atEOF adv tok. split data atEOF = (adv, Some tok, None) \<longrightarrow> 0 < adv)"



text \<open>
  Executions of a filter through what the package exports, \<open>Write\<close> alone: producers write,
  and now and then the consumer task is scheduled and, unless it has returned, runs one
  iteration of its loop or finds nothing pending and stays blocked. Each \<open>Write\<close> and each
  iteration is one step. The state records whether the task has returned.
\<close>

datatype event = EvWrite string | EvWake

fun engine_of :: "engine task_outcome \<Rightarrow> engine" where
  "engine_of (Returned f) = f"
| "engine_of (Waiting f) = f"
| "engine_of (Running f) = f"

fun with_engine :: "engine task_outcome \<Rightarrow> engine \<Rightarrow> engine task_outcome" where
  "with_engine (Returned f) g = Returned g"
| "with_engine (Waiting f) g = Waiting g"
| "with_engine (Running f) g = Running g"

fun engine_run :: "event list \<Rightarrow> engine task_outcome \<Rightarrow> panic + engine task_outcome" where
  "engine_run [] st = Inr st"
| "engine_run (EvWrite p # es) st =
     (case Filter_Write (engine_of st) p of
        Inl pn \<Rightarrow> Inl pn
      | Inr (f1, n, err) \<Rightarrow> engine_run es (with_engine st f1))"
| "engine_run (EvWake # es) st =
     (case st of
        Returned f \<Rightarrow> engine_run es st
      | _ \<Rightarrow>
          (case consumer_loop (Suc 0) (engine_of st) of
             Inl pn \<Rightarrow> Inl pn
           | Inr st1 \<Rightarrow> engine_run es st1))"

text \<open>
  What the consumer's reads keep of the buffer: its invariant, storage, closed flag and
  channel state; the length does not grow.
\<close>

definition buffer_kept :: "CircularBuffer \<Rightarrow> CircularBuffer \<Rightarrow> bool" where
  "buffer_kept cb cb1 \<longleftrightarrow>
     buffer_inv cb1 \<and> buf cb1 = buf cb \<and> closed cb1 = closed cb \<and> len cb1 \<le> len cb \<and>
     chclosed (C cb1) = chclosed (C cb)"

text \<open>
  The state of a filter nobody has closed: the buffer's invariant holds, its capacity is not
  zero, and neither the buffer nor its channel is closed.
\<close>

definition engine_open :: "engine \<Rightarrow> bool" where
  "engine_open f \<longleftrightarrow>
     buffer_inv (cbuf f) \<and> buf (cbuf f) \<noteq> [] \<and> \<not> closed (cbuf f) \<and> \<not> chclosed (C (cbuf f))"

section \<open>Properties of the tokenizer\<close>

lemma matchQuote_lt: "matchQuote data i = Some r \<Longrightarrow> r < length data"
proof (induction data i rule: matchQuote.induct)
  case (1 data i)
  then show ?case
    by (subst (asm) (3) matchQuote.simps) (fastforce split: if_splits)
qed

lemma matchBrace_ge: "matchBrace data i = Some r \<Longrightarrow> i \<le> r"
proof (induction data i arbitrary: r rule: matchBrace.induct)
  case (1 data i)
  note eq = "1.prems" [unfolded matchBrace.simps [of data i]]
  from eq have lt: "i < length data" by (simp split: if_splits)
  consider (close) "data ! i = CHR ''}''"
    | (quote) "data ! i \<noteq> CHR ''}''" "data ! i = CHR 0x22"
    | (opn) "data ! i \<noteq> CHR ''}''" "data ! i \<noteq> CHR 0x22" "data ! i = CHR ''{''"
    | (other) "data ! i \<noteq> CHR ''}''" "data ! i \<noteq> CHR 0x22" "data ! i \<noteq> CHR ''{''"
    by blast
  then show ?case
  proof cases
    case close
    with eq lt show ?thesis by simp
  next
    case quote
    with eq lt obtain newi where q: "matchQuote data (i + 1) = Some newi"
      and b: "matchBrace data (newi + 1) = Some r"
      by (auto split: option.splits)
    from "1.IH"(1) [OF lt quote q b] matchQuote_ge [OF q] show ?thesis by simp
  next
    case opn
    with eq lt obtain newi where q: "matchBrace data (i + 1) = Some newi"
      and b: "matchBrace data (newi + 1) = Some r"
      by (auto split: option.splits)
    from "1.IH"(2) [OF lt opn q] "1.IH"(3) [OF lt opn q b] show ?thesis by simp
  next
    case other
    with eq lt have b: "matchBrace data (i + 1) = Some r" by simp
    from "1.IH"(4) [OF lt other b] show ?thesis by simp
  qed
qed

lemma matchBrace_lt: "matchBrace data i = Some r \<Longrightarrow> r < length data"
proof (induction data i arbitrary: r rule: matchBrace.induct)
  case (1 data i)
  note eq = "1.prems" [unfolded matchBrace.simps [of data i]]
  from eq have lt: "i < length data" by (simp split: if_splits)
  consider (close) "data ! i = CHR ''}''"
    | (quote) "data ! i \<noteq> CHR ''}''" "data ! i = CHR 0x22"
    | (opn) "data ! i \<noteq> CHR ''}''" "data ! i \<noteq> CHR 0x22" "data ! i = CHR ''{''"
    | (other) "data ! i \<noteq> CHR ''}''" "data ! i \<noteq> CHR 0x22" "data ! i \<noteq> CHR ''{''"
    by blast
  then show ?case
  proof cases
    case close
    with eq lt show ?thesis by simp
  next
    case quote
    with eq lt obtain newi where q: "matchQuote data (i + 1) = Some newi"
      and b: "matchBrace data (newi + 1) = Some r"
      by (auto split: option.splits)
    from "1.IH"(1) [OF lt quote q b] show ?thesis .
  next
    case opn
    with eq lt obtain newi where q: "matchBrace data (i + 1) = Some newi"
      and b: "matchBrace data (newi + 1) = Some r"
      by (auto split: option.splits)
    from "1.IH"(3) [OF lt opn q b] show ?thesis .
  next
    case other
    with eq lt have b: "matchBrace data (i + 1) = Some r" by simp
    from "1.IH"(4) [OF lt other b] show ?thesis .
  qed
qed

lemma matchBrace_closes: "matchBrace data i = Some r \<Longrightarrow> data ! r = CHR ''}''"
proof (induction data i arbitrary: r rule: matchBrace.induct)
  case (1 data i)
  note eq = "1.prems" [unfolded matchBrace.simps [of data i]]
  from eq have lt: "i < length data" by (simp split: if_splits)
  consider (close) "data ! i = CHR ''}''"
    | (quote) "data ! i \<noteq> CHR ''}''" "data ! i = CHR 0x22"
    | (opn) "data ! i \<noteq> CHR ''}''" "data ! i \<noteq> CHR 0x22" "data ! i = CHR ''{''"
    | (other) "data ! i \<noteq> CHR ''}''" "data ! i \<noteq> CHR 0x22" "data ! i \<noteq> CHR ''{''"
    by blast
  then show ?case
  proof cases
    case close
    with eq lt show ?thesis by simp
  next
    case quote
    with eq lt obtain newi where q: "matchQuote data (i + 1) = Some newi"
      and b: "matchBrace data (newi + 1) = Some r"
      by (auto split: option.splits)
    from "1.IH"(1) [OF lt quote q b] show ?thesis .
  next
    case opn
    with eq lt obtain newi where q: "matchBrace data (i + 1) = Some newi"
      and b: "matchBrace data (newi + 1) = Some r"
      by (auto split: option.splits)
    from "1.IH"(3) [OF lt opn q b] show ?thesis .
  next
    case other
    with eq lt have b: "matchBrace data (i + 1) = Some r" by simp
    from "1.IH"(4) [OF lt other b] show ?thesis .
  qed
qed

lemma brace_scan_string:
  "brace_scan d InString i (drop i data) =
     (case matchQuote data i of
        None \<Rightarrow> None
      | Some r \<Rightarrow> brace_scan d InObject (r + 1) (drop (r + 1) data))"
proof (induction data i rule: matchQuote.induct)
  case (1 data i)
  show ?case
  proof (cases "i < length data")
    case False
    then show ?thesis by (simp add: matchQuote.simps [of data i])
  next
    case lt: True
    then have dr: "drop i data = data ! i # drop (i + 1) data"
      by (simp add: Cons_nth_drop_Suc)
    show ?thesis
    proof (cases "data ! i = CHR 0x5C")
      case bs: True
      show ?thesis
      proof (cases "i + 1 < length data")
        case True
        then have dr2: "drop (Suc i) data = data ! (Suc i) # drop (Suc (Suc i)) data"
          using Cons_nth_drop_Suc [of "Suc i" data] by simp
        from "1.IH"(1) [OF lt bs] lt bs show ?thesis
          by (simp add: dr dr2 matchQuote.simps [of data i])
      next
        case False
        with lt bs show ?thesis
          by (simp add: dr matchQuote.simps [of data i] matchQuote.simps [of data "Suc (Suc i)"])
      qed
    next
      case nbs: False
      show ?thesis
      proof (cases "data ! i = CHR 0x22")
        case True
        with lt nbs show ?thesis
          by (simp add: dr matchQuote.simps [of data i])
      next
        case False
        with "1.IH"(2) [OF lt nbs False] lt nbs show ?thesis
          by (simp add: dr matchQuote.simps [of data i])
      qed
    qed
  qed
qed

lemma IndexByte_first:
  "IndexByte data c = Some s \<longleftrightarrow> s < length data \<and> data ! s = c \<and> (\<forall>j < s. data ! j \<noteq> c)"
proof (induction data arbitrary: s)
  case Nil
  then show ?case by simp
next
  case (Cons x xs)
  show ?case
  proof (cases "x = c")
    case True
    show ?thesis
    proof (cases s)
      case 0
      with True show ?thesis by simp
    next
      case (Suc k)
      with True have "\<not> (\<forall>j < s. (x # xs) ! j \<noteq> c)"
        by (intro notI) (drule spec [of _ 0], simp)
      with True Suc show ?thesis by simp
    qed
  next
    case False
    show ?thesis
    proof (cases s)
      case 0
      with False show ?thesis by auto
    next
      case (Suc k)
      have "(\<forall>j < Suc k. (x # xs) ! j \<noteq> c) \<longleftrightarrow> (\<forall>j < k. xs ! j \<noteq> c)"
        using False by (simp add: All_less_Suc2)
      with Suc False Cons.IH [of k] show ?thesis
        by simp
    qed
  qed
qed




lemma brace_scan_object:
  "brace_scan d InObject i (drop i data) =
     (case matchBrace data i of
        None \<Rightarrow> None
      | Some r \<Rightarrow>
          if d = 0 then Some r
          else brace_scan (d - 1) InObject (r + 1) (drop (r + 1) data))"
proof (induction data i arbitrary: d rule: matchBrace.induct)
  case (1 data i)
  show ?case
  proof (cases "i < length data")
    case False
    then show ?thesis by (simp add: matchBrace.simps [of data i])
  next
    case lt: True
    then have dr: "drop i data = data ! i # drop (i + 1) data"
      by (simp add: Cons_nth_drop_Suc)
    consider (close) "data ! i = CHR ''}''"
      | (quote) "data ! i \<noteq> CHR ''}''" "data ! i = CHR 0x22"
      | (opn) "data ! i \<noteq> CHR ''}''" "data ! i \<noteq> CHR 0x22" "data ! i = CHR ''{''"
      | (other) "data ! i \<noteq> CHR ''}''" "data ! i \<noteq> CHR 0x22" "data ! i \<noteq> CHR ''{''"
      by blast
    then show ?thesis
    proof cases
      case close
      with lt show ?thesis
        by (simp add: dr matchBrace.simps [of data i])
    next
      case quote
      show ?thesis
      proof (cases "matchQuote data (i + 1)")
        case None
        with lt quote show ?thesis
          using brace_scan_string [of d "i + 1" data]
          by (simp add: dr matchBrace.simps [of data i])
      next
        case (Some newi)
        with lt quote "1.IH"(1) [OF lt quote Some, of d] show ?thesis
          using brace_scan_string [of d "i + 1" data]
          by (simp add: dr matchBrace.simps [of data i])
      qed
    next
      case opn
      show ?thesis
      proof (cases "matchBrace data (i + 1)")
        case None
        with lt opn "1.IH"(2) [OF lt opn, of "d + 1"] show ?thesis
          by (simp add: dr matchBrace.simps [of data i])
      next
        case (Some newi)
        with lt opn "1.IH"(2) [OF lt opn, of "d + 1"]
          "1.IH"(3) [OF lt opn Some, of d] show ?thesis
          by (simp add: dr matchBrace.simps [of data i])
      qed
    next
      case other
      with lt "1.IH"(4) [OF lt other, of d] show ?thesis
        by (simp add: dr matchBrace.simps [of data i])
    qed
  qed
qed

lemma JSONSplit_no_brace:
  "IndexByte data (CHR ''{'') = None \<Longrightarrow> JSONSplit data atEOF = (0, None, None)"
  by (simp add: JSONSplit_def)

lemma JSONSplit_first_open_brace:
  assumes "first_open_brace data s"
  shows "JSONSplit data atEOF =
     (case brace_scan 0 InObject (s + 1) (drop (s + 1) data) of
        None \<Rightarrow> (0, None, if atEOF then Some (ErrorsNew ''incomplete JSON object'') else None)
      | Some e \<Rightarrow> (int e + 1, Some (take (e + 1 - s) (drop s data)), None))"
proof -
  from assms have ib: "IndexByte data (CHR ''{'') = Some s"
    by (simp add: IndexByte_first first_open_brace_def)
  from assms have ne: "length data \<noteq> 0"
    by (auto simp: first_open_brace_def)
  show ?thesis
    using ib ne brace_scan_object [of 0 "s + 1" data]
    by (simp add: JSONSplit_def Let_def split: option.splits)
qed

text \<open>
  Claim C3. For every byte window and \<open>atEnd\<close> flag: when \<open>s\<close> is the index of the first
  \<open>{\<close> of the window, the specification's depth-aware scan from \<open>s + 1\<close> (nested brace
  pairs tracked, no byte of a double-quoted string literal taken as a delimiter, a backslash
  escaping the next byte) decides the result of \<open>JSONSplit\<close>. If the scan finds the matching
  \<open>}\<close> at index \<open>e\<close>, the token is the bytes from \<open>s\<close> to \<open>e\<close> inclusive and the advance is
  \<open>e + 1\<close>, which counts the \<open>s\<close> discarded bytes before the \<open>{\<close>. If the window ends first, the
  result is \<open>(0, nil, nil)\<close> when not at the end and the error "incomplete JSON object" at
  the end. In particular \<open>junk{"a":1}more{"b":2}\<close> yields \<open>{"a":1}\<close> and then, on the
  window left after the advance, \<open>{"b":2}\<close>; and \<open>{"a":\<close> yields the error at the end of the
  stream and "wait for more" before it.
\<close>

theorem JSONSplit_object_token:
  \<open>(first_open_brace data s \<longrightarrow>
      (case brace_scan 0 InObject (s + 1) (drop (s + 1) data) of
         Some e \<Rightarrow>
           s < e \<and> e < length data \<and> data ! e = CHR ''}'' \<and>
           JSONSplit data atEnd = (int e + 1, Some (take (e + 1 - s) (drop s data)), None)
       | None \<Rightarrow>
           JSONSplit data atEnd =
             (0, None, if atEnd then Some (ErrorsNew ''incomplete JSON object'') else None))) \<and>
   JSONSplit ''junk{"a":1}more{"b":2}'' atEnd = (11, Some ''{"a":1}'', None) \<and>
   JSONSplit (drop 11 ''junk{"a":1}more{"b":2}'') atEnd = (11, Some ''{"b":2}'', None) \<and>
   JSONSplit ''{"a":'' True = (0, None, Some (ErrorsNew ''incomplete JSON object'')) \<and>
   JSONSplit ''{"a":'' False = (0, None, None)\<close>
proof (intro conjI impI)
  assume fb: "first_open_brace data s"
  show "case brace_scan 0 InObject (s + 1) (drop (s + 1) data) of
         Some e \<Rightarrow>
           s < e \<and> e < length data \<and> data ! e = CHR ''}'' \<and>
           JSONSplit data atEnd = (int e + 1, Some (take (e + 1 - s) (drop s data)), None)
       | None \<Rightarrow>
           JSONSplit data atEnd =
             (0, None, if atEnd then Some (ErrorsNew ''incomplete JSON object'') else None)"
  proof (cases "brace_scan 0 InObject (s + 1) (drop (s + 1) data)")
    case None
    with JSONSplit_first_open_brace [OF fb, of atEnd] show ?thesis by simp
  next
    case (Some e)
    with brace_scan_object [of 0 "s + 1" data] have mb: "matchBrace data (s + 1) = Some e"
      by (simp split: option.splits)
    from matchBrace_ge [OF mb] matchBrace_lt [OF mb] matchBrace_closes [OF mb] Some
      JSONSplit_first_open_brace [OF fb, of atEnd]
    show ?thesis by simp
  qed
qed (simp_all add: JSONSplit_def matchBrace.simps matchQuote.simps)

theorem JSONSplit_object_token_witness:
  \<open>first_open_brace (''junk{"a":{"x":"}'' @ CHR 0x5C # ''"{"}}more{"b":2}'') 4 \<and>
   brace_scan 0 InObject 5 (drop 5 (''junk{"a":{"x":"}'' @ CHR 0x5C # ''"{"}}more{"b":2}'')) = Some 21 \<and>
   JSONSplit (''junk{"a":{"x":"}'' @ CHR 0x5C # ''"{"}}more{"b":2}'') False =
     (22, Some (''{"a":{"x":"}'' @ CHR 0x5C # ''"{"}}''), None)\<close>
proof -
  have fb: \<open>first_open_brace (''junk{"a":{"x":"}'' @ CHR 0x5C # ''"{"}}more{"b":2}'') 4\<close>
    unfolding first_open_brace_def IndexByte_first [symmetric] by simp
  have bs: \<open>brace_scan 0 InObject 5 (drop 5 (''junk{"a":{"x":"}'' @ CHR 0x5C # ''"{"}}more{"b":2}'')) = Some 21\<close>
    by simp
  from JSONSplit_object_token [of \<open>''junk{"a":{"x":"}'' @ CHR 0x5C # ''"{"}}more{"b":2}''\<close> 4 False] fb bs
  show ?thesis by simp
qed

section \<open>Properties of the circular buffer\<close>

lemma pbind_Inr [simp]: "pbind (Inr x) f = f x"
  by (simp add: pbind_def)

lemma pbind_Inl [simp]: "pbind (Inl e) f = Inl e"
  by (simp add: pbind_def)

lemma smod_nonneg: "0 \<le> a \<Longrightarrow> 0 < b \<Longrightarrow> (a::int) smod b = a mod b"
  by (cases "a = 0") (simp_all add: smod_int_alt_def)

lemma go_rem_nat: "0 < N \<Longrightarrow> go_rem (int a) (int N) = Inr (int (a mod N))"
  by (simp add: go_rem_def smod_nonneg zmod_int)

lemma go_slice_nat:
  "lo \<le> hi \<Longrightarrow> hi \<le> length xs \<Longrightarrow>
   go_slice xs (int lo) (int hi) = Inr (take (hi - lo) (drop lo xs))"
  by (simp add: go_slice_def nat_diff_distrib')

lemma go_copy_nat:
  "lo \<le> hi \<Longrightarrow> hi \<le> length dst \<Longrightarrow>
   go_copy dst (int lo) (int hi) src =
     Inr (take lo dst @ take (min (hi - lo) (length src)) src
            @ drop (lo + min (hi - lo) (length src)) dst,
          int (min (hi - lo) (length src)))"
  by (simp add: go_copy_def Let_def nat_diff_distrib')

lemma buffer_inv_natE:
  assumes "buffer_inv c"
  obtains i l where "index c = int i" "len c = int l" "l \<le> length (buf c)"
    "i < length (buf c) \<or> (buf c = [] \<and> i = 0)" "chclosed (C c) \<longrightarrow> closed c"
proof -
  from assms have a: "index c = int (nat (index c))" "len c = int (nat (len c))"
    by (simp_all add: buffer_inv_def)
  from assms have b: "nat (len c) \<le> length (buf c)"
    "nat (index c) < length (buf c) \<or> (buf c = [] \<and> nat (index c) = 0)"
    "chclosed (C c) \<longrightarrow> closed c"
    by (auto simp: buffer_inv_def)
  from a b show ?thesis by (rule that)
qed

lemma peek_contents:
  assumes inv: "buffer_inv c" and ne: "\<not> (len c = 0 \<and> closed c)"
  shows "peek c p =
     Inr (take (min (length p) (nat (len c))) (contents c)
            @ drop (min (length p) (nat (len c))) p,
          int (min (length p) (nat (len c))), None)"
proof -
  from inv obtain i l where il: "index c = int i" "len c = int l" "l \<le> length (buf c)"
    "i < length (buf c) \<or> (buf c = [] \<and> i = 0)"
    by (rule buffer_inv_natE)
  define N where "N = length (buf c)"
  define k where "k = min (length p) l"
  have kl: "k \<le> l" "k \<le> length p" "l \<le> N" "i \<le> N" using il by (auto simp: k_def N_def)
  have l_eq: "(if int (length p) > len c then len c else int (length p)) = int k"
    by (simp add: k_def min_def il)
  have pk: "peek c p =
      (if int k < int N - int i then
             pbind (go_slice (buf c) (int i) (int i + int k)) (\<lambda>src.
             pbind (go_copy p 0 (int (length p)) src) (\<lambda>(p1, n).
               Inr (p1, n, None)))
           else
             pbind (go_slice (buf c) (int i) (int N)) (\<lambda>src1.
             pbind (go_copy p 0 (int (length p)) src1) (\<lambda>(p1, n1).
             pbind (go_slice (buf c) 0 (int k - n1)) (\<lambda>src2.
             pbind (go_copy p1 n1 (int (length p)) src2) (\<lambda>(p2, n2).
               Inr (p2, n1 + n2, None))))))"
    unfolding peek_def l_eq Let_def using ne by (simp only: il N_def if_False)
  show ?thesis
  proof (cases "k < N - i")
    case True
    then have t: "take k (contents c) = take k (drop i (buf c))"
      using kl by (simp add: contents_def il N_def min_absorb1)
    from True have c: "int k < int N - int i" by linarith
    from True kl have s1: "go_slice (buf c) (int i) (int i + int k) = Inr (take k (drop i (buf c)))"
      by (simp add: go_slice_def N_def)
    from True kl have s2: "go_copy p 0 (int (length p)) (take k (drop i (buf c)))
         = Inr (take k (drop i (buf c)) @ drop k p, int k)"
      by (simp add: go_copy_def N_def min_absorb2)
    show ?thesis
      unfolding pk using c by (simp add: s1 s2 il t k_def [symmetric])
  next
    case False
    then have ge: "N - i \<le> k" by simp
    have t: "take k (contents c) = drop i (buf c) @ take (k - (N - i)) (buf c)"
      using kl ge il by (simp add: contents_def N_def min_absorb1 min_absorb2)
    from False kl have c: "\<not> int k < int N - int i" by linarith
    from kl have s1: "go_slice (buf c) (int i) (int N) = Inr (drop i (buf c))"
      by (simp add: go_slice_def N_def)
    from kl ge have s2: "go_copy p 0 (int (length p)) (drop i (buf c))
         = Inr (drop i (buf c) @ drop (N - i) p, int (N - i))"
      by (simp add: go_copy_def N_def min_absorb2)
    from kl ge have s3: "go_slice (buf c) 0 (int k - int (N - i)) = Inr (take (k - (N - i)) (buf c))"
      by (simp add: go_slice_def N_def nat_diff_distrib')
    from kl ge have s4: "go_copy (drop i (buf c) @ drop (N - i) p) (int (N - i)) (int (length p)) (take (k - (N - i)) (buf c))
         = Inr (drop i (buf c) @ take (k - (N - i)) (buf c) @ drop k p, int (k - (N - i)))"
      by (simp add: go_copy_def N_def nat_diff_distrib' min_absorb1 min_absorb2)
    from ge have s5: "int (N - i) + int (k - (N - i)) = int k" by simp
    show ?thesis
      unfolding pk using c by (simp add: s1 s2 s3 s4 s5 il t k_def [symmetric])
  qed
qed

lemma addLen_eq:
  assumes "chclosed (C c) \<longrightarrow> closed c"
  shows "addLen c n =
     Inr (c\<lparr>len := len c + n,
            C := (if len c + n \<noteq> 0 \<and> \<not> closed c then (C c)\<lparr>pending := True\<rparr> else C c)\<rparr>)"
  using assms by (auto simp: addLen_def Let_def chan_try_send_def)

lemma consume_eq:
  assumes "buf c \<noteq> []" and "chclosed (C c) \<longrightarrow> closed c"
  shows "consume c n =
     Inr (c\<lparr>index := (index c + min n (len c)) smod int (length (buf c)),
            len := len c - min n (len c),
            C := (if len c - min n (len c) \<noteq> 0 \<and> \<not> closed c then (C c)\<lparr>pending := True\<rparr> else C c)\<rparr>,
          min n (len c))"
proof -
  have m: "(if n > len c then len c else n) = min n (len c)" by (simp add: min_def)
  from assms(1) have nz: "int (length (buf c)) \<noteq> 0" by simp
  show ?thesis
    unfolding consume_def m Let_def go_rem_def using nz assms(2)
    by (simp add: addLen_eq)
qed

lemma rotate_index: "i < length xs \<or> (xs = [] \<and> i = 0) \<Longrightarrow> drop i xs @ take i xs = rotate i xs"
  by (auto simp: rotate_drop_take)

lemma contents_rotate:
  "buffer_inv c \<Longrightarrow> contents c = take (nat (len c)) (rotate (nat (index c)) (buf c))"
  unfolding contents_def by (subst rotate_index) (auto simp: buffer_inv_def)

lemma drop_rotate: "m \<le> length ys \<Longrightarrow> drop m ys = take (length ys - m) (rotate m ys)"
  by (cases "m = length ys") (simp_all add: rotate_drop_take)

lemma consume_contents:
  assumes inv: "buffer_inv c" and ne: "buf c \<noteq> []" and n0: "0 \<le> n"
    and r: "consume c n = Inr (c', m)"
  shows "buffer_inv c' \<and> contents c' = drop (nat m) (contents c) \<and> m = min n (len c) \<and>
         buf c' = buf c \<and> closed c' = closed c \<and> len c' = len c - m"
proof -
  from inv obtain i l where il: "index c = int i" "len c = int l" "l \<le> length (buf c)"
    "i < length (buf c) \<or> (buf c = [] \<and> i = 0)" "chclosed (C c) \<longrightarrow> closed c"
    by (rule buffer_inv_natE)
  define N where "N = length (buf c)"
  define k where "k = min (nat n) l"
  have N0: "0 < N" using ne by (simp add: N_def)
  have mk: "min n (int l) = int k" using n0 unfolding k_def min_def by (cases "n \<le> int l") auto
  have kl: "k \<le> l" "l \<le> N" "i < N" using il ne by (auto simp: k_def N_def)
  have sm: "(int i + int k) smod int (length (buf c)) = int ((i + k) mod N)"
    using N0 smod_nonneg [of "int i + int k" "int N"] by (simp add: zmod_int N_def)
  from r consume_eq [OF ne il(5), of n] have
    c': "c' = c\<lparr>index := int ((i + k) mod N), len := int l - int k,
            C := (if int l - int k \<noteq> 0 \<and> \<not> closed c then (C c)\<lparr>pending := True\<rparr> else C c)\<rparr>"
    and m: "m = int k"
    unfolding il mk sm by auto
  have inv': "buffer_inv c'"
    using inv kl N0 by (auto simp: c' buffer_inv_def N_def [symmetric])
  have "contents c' = take (l - k) (rotate ((i + k) mod N) (buf c))"
    using contents_rotate [OF inv'] kl by (simp add: c' nat_diff_distrib')
  also have "\<dots> = take (l - k) (rotate k (rotate i (buf c)))"
    by (simp add: rotate_rotate N_def add.commute flip: rotate_conv_mod)
  also have "\<dots> = take (l - k) (take (N - k) (rotate k (rotate i (buf c))))"
    using kl by (simp add: min_absorb1)
  also have "\<dots> = take (l - k) (drop k (rotate i (buf c)))"
    using kl drop_rotate [of k "rotate i (buf c)"] by (simp add: N_def)
  also have "\<dots> = drop k (take l (rotate i (buf c)))"
    using kl by (simp add: drop_take)
  also have "\<dots> = drop (nat m) (contents c)"
    using contents_rotate [OF inv] by (simp add: il m)
  finally show ?thesis
    using inv' m mk kl by (simp add: c' il)
qed

lemma wrap_write_nowrap:
  assumes "i + l + k \<le> length b" and "length p = k"
  shows "take (l + k) (drop i (take (i + l) b @ p @ drop (i + l + k) b)
            @ take i (take (i + l) b @ p @ drop (i + l + k) b))
         = take l (drop i b) @ p"
  using assms by (simp add: min_absorb2 take_drop add.commute)

lemma wrap_write_wrapped:
  assumes "s + length b = i + l" and "s + k \<le> i" and "i < length b" and "length p = k"
  shows "take (l + k) (drop i (take s b @ p @ drop (s + k) b)
            @ take i (take s b @ p @ drop (s + k) b))
         = drop i b @ take s b @ p"
  using assms by (simp add: min_absorb2)

lemma wrap_write_split:
  assumes "i + l < length b" and "length b - (i + l) \<le> k" and "k + l \<le> length b" and "length p = k"
  shows "take (l + k)
           (drop i (drop (length b - (i + l)) p
                      @ drop (k - (length b - (i + l))) (take (i + l) b @ take (length b - (i + l)) p))
            @ take i (drop (length b - (i + l)) p
                      @ drop (k - (length b - (i + l))) (take (i + l) b @ take (length b - (i + l)) p)))
         = take l (drop i b) @ p"
  using assms by (simp add: min_absorb2 take_drop add.commute)


lemma write_at_tail_contents:
  assumes inv: "buffer_inv c" and ne: "buf c \<noteq> []"
    and fit: "int (length p) \<le> int (length (buf c)) - len c"
  shows "\<exists>c'. write_at_tail c p = Inr (c', int (length p), None) \<and> buffer_inv c' \<and>
           contents c' = contents c @ p \<and> length (buf c') = length (buf c) \<and>
           index c' = index c \<and> len c' = len c + int (length p) \<and> closed c' = closed c \<and>
           C c' = (if len c + int (length p) \<noteq> 0 \<and> \<not> closed c
                   then (C c)\<lparr>pending := True\<rparr> else C c)"
proof -
  from inv obtain i l where il: "index c = int i" "len c = int l" "l \<le> length (buf c)"
    "i < length (buf c) \<or> (buf c = [] \<and> i = 0)" and ch: "chclosed (C c) \<longrightarrow> closed c"
    by (rule buffer_inv_natE)
  define b where "b = buf c"
  define N where "N = length b"
  define k where "k = length p"
  define s where "s = (i + l) mod N"
  have N0: "0 < N" using ne by (simp add: N_def b_def)
  have bounds: "i < N" "l \<le> N" "k + l \<le> N" "s < N"
    using il ne fit N0 by (auto simp: N_def b_def k_def s_def)
  have s_cases: "s = (if i + l < N then i + l else i + l - N)"
  proof (cases "i + l < N")
    case True
    then show ?thesis by (simp add: s_def)
  next
    case False
    then have "(i + l) mod N = (i + l - N) mod N" by (simp add: le_mod_geq)
    also have "\<dots> = i + l - N" using bounds(1,2) by (intro mod_less) linarith
    finally show ?thesis using False by (simp add: s_def)
  qed
  have rem: "go_rem (index c + len c) (int (length (buf c))) = Inr (int s)"
    using go_rem_nat [OF N0, of "i + l"] by (simp add: il s_def N_def b_def)
  have wt: "write_at_tail c p =
       (if int k < int N - int s then
            pbind (go_copy b (int s) (int N) p) (\<lambda>(b1, n).
            pbind (addLen (c\<lparr>buf := b1\<rparr>) (int k)) (\<lambda>c1.
              Inr (c1, n, None)))
          else
            pbind (go_slice p 0 (int N - int s)) (\<lambda>p1.
            pbind (go_copy b (int s) (int N) p1) (\<lambda>(b1, n1).
            pbind (go_slice p (int N - int s) (int k)) (\<lambda>p2.
            pbind (go_copy b1 0 (int s) p2) (\<lambda>(b2, n2).
            pbind (addLen (c\<lparr>buf := b2\<rparr>) (int k)) (\<lambda>c1.
              Inr (c1, n1 + n2, None)))))))"
    unfolding write_at_tail_def rem by (simp only: pbind_Inr Let_def N_def b_def k_def)
  have al: "\<And>b'. addLen (c\<lparr>buf := b'\<rparr>) (int k) =
      Inr (c\<lparr>buf := b', len := int l + int k,
             C := (if int l + int k \<noteq> 0 \<and> \<not> closed c then (C c)\<lparr>pending := True\<rparr> else C c)\<rparr>)"
    using ch by (subst addLen_eq) (simp_all add: il)
  have res: ?thesis
    if len: "length b' = N" and cont: "take (l + k) (drop i b' @ take i b') = contents c @ p"
      and w: "write_at_tail c p = Inr (c\<lparr>buf := b', len := int l + int k,
             C := (if int l + int k \<noteq> 0 \<and> \<not> closed c then (C c)\<lparr>pending := True\<rparr> else C c)\<rparr>,
           int k, None)" for b'
  proof -
    have "buffer_inv (c\<lparr>buf := b', len := int l + int k,
             C := (if int l + int k \<noteq> 0 \<and> \<not> closed c then (C c)\<lparr>pending := True\<rparr> else C c)\<rparr>)"
      using bounds ch len by (auto simp: buffer_inv_def il)
    moreover have "contents (c\<lparr>buf := b', len := int l + int k,
             C := (if int l + int k \<noteq> 0 \<and> \<not> closed c then (C c)\<lparr>pending := True\<rparr> else C c)\<rparr>)
          = contents c @ p"
      using cont by (simp add: contents_def il nat_add_distrib)
    ultimately show ?thesis
      using w len by (simp add: il k_def N_def b_def)
  qed
  show ?thesis
  proof (cases "k < N - s")
    case True
    then have c1: "int k < int N - int s" by linarith
    from True bounds have cp: "go_copy b (int s) (int N) p = Inr (take s b @ p @ drop (s + k) b, int k)"
      by (simp add: go_copy_def Let_def N_def k_def min_absorb2)
    have w: "write_at_tail c p = Inr (c\<lparr>buf := take s b @ p @ drop (s + k) b, len := int l + int k,
             C := (if int l + int k \<noteq> 0 \<and> \<not> closed c then (C c)\<lparr>pending := True\<rparr> else C c)\<rparr>,
           int k, None)"
      unfolding wt using c1 by (simp add: cp al)
    have len: "length (take s b @ p @ drop (s + k) b) = N"
      using True bounds by (simp add: N_def k_def min_absorb2)
    show ?thesis
    proof (cases "i + l < N")
      case A: True
      then have s: "s = i + l" by (simp add: s_def)
      have cc: "contents c = take l (drop i b)"
        using A by (simp add: contents_def il b_def N_def)
      have "take (l + k) (drop i (take s b @ p @ drop (s + k) b) @ take i (take s b @ p @ drop (s + k) b))
            = contents c @ p"
        unfolding s cc using True s by (intro wrap_write_nowrap) (simp_all add: N_def k_def)
      from res [OF len this w] show ?thesis .
    next
      case B: False
      with bounds have s: "s + N = i + l"
        by (simp add: s_cases)
      with bounds have sk: "s + k \<le> i" by simp
      from s have s': "l + i - N = s" "l - (N - i) = s" using bounds by linarith+
      have cc: "contents c = drop i b @ take s b"
        using B s bounds sk
        by (simp add: contents_def il b_def [symmetric] N_def [symmetric] min_absorb2 s')
      have "take (l + k) (drop i (take s b @ p @ drop (s + k) b) @ take i (take s b @ p @ drop (s + k) b))
            = contents c @ p"
        unfolding cc using s sk bounds by (simp add: wrap_write_wrapped N_def k_def)
      from res [OF len this w] show ?thesis .
    qed
  next
    case False
    then have c1: "\<not> int k < int N - int s" by linarith
    from False bounds have A: "i + l < N"
      by (cases "i + l < N") (auto simp: s_cases)
    then have s: "s = i + l" by (simp add: s_def)
    from False have ge: "N - s \<le> k" by simp
    have ns: "nat (int N - int s) = N - s" "int N - int s \<le> int k" "0 \<le> int N - int s"
      using bounds ge by linarith+
    have sl1: "go_slice p 0 (int N - int s) = Inr (take (N - s) p)"
      using ns by (simp add: go_slice_def k_def [symmetric])
    have cp1: "go_copy b (int s) (int N) (take (N - s) p) = Inr (take s b @ take (N - s) p, int (N - s))"
      using ge bounds ns(1) by (simp add: go_copy_def Let_def min_absorb2 N_def [symmetric] k_def [symmetric])
    have sl2: "go_slice p (int N - int s) (int k) = Inr (drop (N - s) p)"
      using ns by (simp add: go_slice_def k_def [symmetric])
    have cp2: "go_copy (take s b @ take (N - s) p) 0 (int s) (drop (N - s) p)
        = Inr (drop (N - s) p @ drop (k - (N - s)) (take s b @ take (N - s) p), int (k - (N - s)))"
      using ge bounds ns(1) by (simp add: go_copy_def Let_def min_absorb2 N_def [symmetric] k_def [symmetric])
    have nn: "int (N - s) + int (k - (N - s)) = int k" using ge by simp
    have w: "write_at_tail c p = Inr (c\<lparr>buf := drop (N - s) p @ drop (k - (N - s)) (take s b @ take (N - s) p),
             len := int l + int k,
             C := (if int l + int k \<noteq> 0 \<and> \<not> closed c then (C c)\<lparr>pending := True\<rparr> else C c)\<rparr>,
           int k, None)"
      unfolding wt using c1 by (simp add: sl1 cp1 sl2 cp2 al nn)
    have len: "length (drop (N - s) p @ drop (k - (N - s)) (take s b @ take (N - s) p)) = N"
      using ge bounds s by (simp add: N_def k_def min_absorb2)
    have cc: "contents c = take l (drop i b)"
      using A by (simp add: contents_def il b_def N_def)
    have "take (l + k) (drop i (drop (N - s) p @ drop (k - (N - s)) (take s b @ take (N - s) p))
            @ take i (drop (N - s) p @ drop (k - (N - s)) (take s b @ take (N - s) p)))
          = contents c @ p"
      unfolding cc s N_def using A ge bounds s
      by (intro wrap_write_split) (simp_all add: N_def k_def)
    from res [OF len this w] show ?thesis .
  qed
qed

lemma length_contents: "buffer_inv c \<Longrightarrow> length (contents c) = nat (len c)"
  by (auto simp: contents_def buffer_inv_def)

lemma Read_contents:
  assumes inv: "buffer_inv c" and ne: "buf c \<noteq> []" and nc: "\<not> (len c = 0 \<and> closed c)"
  shows "\<exists>c'. Read c p =
            Inr (c', take (min (length p) (nat (len c))) (contents c)
                       @ drop (min (length p) (nat (len c))) p,
                 int (min (length p) (nat (len c))), None) \<and>
          buffer_inv c' \<and> contents c' = drop (min (length p) (nat (len c))) (contents c) \<and>
          buf c' = buf c \<and> closed c' = closed c \<and>
          len c' = len c - int (min (length p) (nat (len c)))"
proof -
  define k where "k = min (length p) (nat (len c))"
  from inv have ch: "chclosed (C c) \<longrightarrow> closed c" and l0: "0 \<le> len c"
    by (simp_all add: buffer_inv_def)
  have mk: "min (int k) (len c) = int k" using l0 by (simp add: k_def)
  from consume_eq [OF ne ch, of "int k"] obtain c' where
    ce: "consume c (int k) = Inr (c', int k)" unfolding mk by blast
  from consume_contents [OF inv ne _ ce] have
    "buffer_inv c' \<and> contents c' = drop k (contents c) \<and> buf c' = buf c \<and>
       closed c' = closed c \<and> len c' = len c - int k"
    by simp
  moreover have "Read c p = Inr (c', take k (contents c) @ drop k p, int k, None)"
    unfolding Read_def peek_contents [OF inv nc] k_def [symmetric] by (simp add: ce)
  ultimately show ?thesis unfolding k_def by blast
qed

lemma run_ops_round_trip:
  assumes "buffer_inv c" and "buf c \<noteq> []" and "\<not> closed c"
    and "within_capacity (length (buf c)) (nat (len c)) ops"
  shows "\<exists>c' rd errs. run_ops c ops = Inr (c', rd, errs) \<and> (\<forall>e \<in> set errs. e = None) \<and>
           rd @ contents c' = contents c @ written ops \<and> buffer_inv c' \<and>
           length (buf c') = length (buf c)"
  using assms
proof (induction ops arbitrary: c)
  case Nil
  then show ?case by simp
next
  case (Cons x ops)
  show ?case
  proof (cases x)
    case (OpWrite p)
    from Cons.prems have l0: "0 \<le> len c" by (simp add: buffer_inv_def)
    from Cons.prems(4) OpWrite have fit: "nat (len c) + length p \<le> length (buf c)"
      and rest: "within_capacity (length (buf c)) (nat (len c) + length p) ops"
      by simp_all
    from fit l0 have fit': "int (length p) \<le> int (length (buf c)) - len c" by linarith
    from write_at_tail_contents [OF Cons.prems(1,2) fit'] obtain c1 where
      w: "write_at_tail c p = Inr (c1, int (length p), None)" and inv1: "buffer_inv c1"
      and c1: "contents c1 = contents c @ p" "length (buf c1) = length (buf c)"
        "len c1 = len c + int (length p)" "closed c1 = closed c"
      by blast
    from fit' Cons.prems(3) w have W: "Write c p = Inr (c1, int (length p), None)"
      by (simp add: Write_def)
    from c1 l0 have "nat (len c1) = nat (len c) + length p" by simp
    with rest c1 have rest1: "within_capacity (length (buf c1)) (nat (len c1)) ops" by simp
    from c1 Cons.prems(2) have ne1: "buf c1 \<noteq> []" by auto
    from c1 Cons.prems(3) have nc1: "\<not> closed c1" by simp
    from Cons.IH [OF inv1 ne1 nc1 rest1] obtain c' rd errs where
      r: "run_ops c1 ops = Inr (c', rd, errs)" "\<forall>e \<in> set errs. e = None"
        "rd @ contents c' = contents c1 @ written ops" "buffer_inv c'"
        "length (buf c') = length (buf c1)"
      by blast
    with W OpWrite c1 show ?thesis by simp
  next
    case (OpRead p)
    define k where "k = min (length p) (nat (len c))"
    from Cons.prems have l0: "0 \<le> len c" by (simp add: buffer_inv_def)
    from Cons.prems(3) have nc: "\<not> (len c = 0 \<and> closed c)" by simp
    from Read_contents [OF Cons.prems(1,2) nc, of p] obtain c1 where
      R: "Read c p = Inr (c1, take k (contents c) @ drop k p, int k, None)"
      and inv1: "buffer_inv c1" and c1: "contents c1 = drop k (contents c)"
        "buf c1 = buf c" "closed c1 = closed c" "len c1 = len c - int k"
      unfolding k_def by blast
    have kl: "k \<le> nat (len c)" by (simp add: k_def)
    with c1 l0 have "nat (len c1) = nat (len c) - k" by simp
    with Cons.prems(4) OpRead c1 have rest1: "within_capacity (length (buf c1)) (nat (len c1)) ops"
      by (simp add: k_def)
    from c1 Cons.prems have ne1: "buf c1 \<noteq> []" and nc1: "\<not> closed c1" by simp_all
    from Cons.IH [OF inv1 ne1 nc1 rest1] obtain c' rd errs where
      r: "run_ops c1 ops = Inr (c', rd, errs)" "\<forall>e \<in> set errs. e = None"
        "rd @ contents c' = contents c1 @ written ops" "buffer_inv c'"
        "length (buf c') = length (buf c1)"
      by blast
    have tk: "take k (take k (contents c) @ drop k p) = take k (contents c)"
      using kl length_contents [OF Cons.prems(1)] by simp
    have cat: "(take k (contents c) @ rd) @ contents c' = contents c @ written (x # ops)"
      using r(3) c1(1) append_take_drop_id [of k "contents c"] OpRead by (metis append.assoc written.simps(3))
    have "run_ops c (x # ops) =
        Inr (c', take (nat (int k)) (take k (contents c) @ drop k p) @ rd, None # errs)"
      unfolding OpRead run_ops.simps R using r(1) by simp
    then have run: "run_ops c (x # ops) = Inr (c', take k (contents c) @ rd, None # errs)"
      unfolding nat_int tk .
    from r(2) have errs: "\<forall>e \<in> set (None # errs). e = None" by simp
    from r(5) c1(2) have "length (buf c') = length (buf c)" by simp
    with run errs cat r(4) show ?thesis by blast
  qed
qed

lemma NewCircularBuffer_eq:
  "0 \<le> n \<Longrightarrow> NewCircularBuffer n =
     Inr \<lparr>C = make_chan, buf = replicate (nat n) (CHR 0x00), len = 0, index = 0, closed = False\<rparr>"
  by (simp add: NewCircularBuffer_def go_make_def)

lemma NewCircularBuffer_inv:
  "0 \<le> n \<Longrightarrow> NewCircularBuffer n = Inr c \<Longrightarrow>
     buffer_inv c \<and> contents c = [] \<and> \<not> closed c \<and> length (buf c) = nat n \<and> len c = 0
       \<and> index c = 0 \<and> C c = make_chan"
  by (auto simp: NewCircularBuffer_eq buffer_inv_def contents_def make_chan_def)

lemmas buffer_eval =
  Write_def write_at_tail_def Read_def Peek_def peek_def Consume_def consume_def addLen_def
  Close_def go_rem_def go_copy_def go_slice_def go_make_def chan_try_send_def chan_close_def
  make_chan_def NewCircularBuffer_def Let_def smod_int_alt_def

text \<open>
  Claim C4. Round trip of the fixed-capacity buffer: for every capacity \<open>cap > 0\<close> and every
  interleaved sequence of writes and reads on a new buffer in which no write takes the
  occupancy above \<open>cap\<close>, every call succeeds, and the bytes returned by the reads, in order,
  followed by the bytes still buffered, are exactly the bytes passed to the writes, in order;
  once the buffer is drained the bytes read equal the bytes written.
\<close>

theorem ring_buffer_round_trip:
  assumes "0 < cap" and "within_capacity (nat cap) 0 ops"
  shows "\<exists>c0 c' rd errs.
           NewCircularBuffer cap = Inr c0 \<and> run_ops c0 ops = Inr (c', rd, errs) \<and>
           (\<forall>e \<in> set errs. e = None) \<and>
           rd @ contents c' = written ops \<and>
           (Len c' = 0 \<longrightarrow> rd = written ops)"
proof -
  from assms(1) obtain c0 where n: "NewCircularBuffer cap = Inr c0"
    by (simp add: NewCircularBuffer_eq)
  from NewCircularBuffer_inv [OF _ n] assms(1) have
    c0: "buffer_inv c0" "contents c0 = []" "\<not> closed c0" "length (buf c0) = nat cap" "len c0 = 0"
    by simp_all
  from c0 assms(1) have ne: "buf c0 \<noteq> []" by auto
  from c0 assms(2) have wc: "within_capacity (length (buf c0)) (nat (len c0)) ops" by simp
  from run_ops_round_trip [OF c0(1) ne c0(3) wc] obtain c' rd errs where
    r: "run_ops c0 ops = Inr (c', rd, errs)" "\<forall>e \<in> set errs. e = None"
      "rd @ contents c' = contents c0 @ written ops" "buffer_inv c'"
    by blast
  from r(3) c0(2) have rt: "rd @ contents c' = written ops" by simp
  have "Len c' = 0 \<longrightarrow> rd = written ops"
    using rt length_contents [OF r(4)] by (auto simp: Len_def)
  with n r(1,2) rt show ?thesis by blast
qed

theorem ring_buffer_round_trip_witness:
  "(0::int) < 4 \<and>
   within_capacity (nat 4) 0 [OpWrite ''abc'', OpRead ''..'', OpWrite ''def'', OpRead ''........''] \<and>
   (\<exists>c0 c' errs. NewCircularBuffer 4 = Inr c0 \<and>
      run_ops c0 [OpWrite ''abc'', OpRead ''..'', OpWrite ''def'', OpRead ''........'']
        = Inr (c', ''abcdef'', errs) \<and> Len c' = 0)"
proof -
  have h1: "(0::int) < 4" by simp
  have h2: "within_capacity (nat 4) 0 [OpWrite ''abc'', OpRead ''..'', OpWrite ''def'', OpRead ''........'']"
    by simp
  have ev: "run_ops \<lparr>C = make_chan, buf = replicate (nat 4) (CHR 0x00), len = 0, index = 0, closed = False\<rparr>
      [OpWrite ''abc'', OpRead ''..'', OpWrite ''def'', OpRead ''........'']
    = Inr (\<lparr>C = \<lparr>pending = True, chclosed = False\<rparr>, buf = ''efcd'', len = 0, index = 2, closed = False\<rparr>,
      ''abcdef'', [None, None, None, None])"
    by (simp add: buffer_eval)
  from ring_buffer_round_trip [OF h1 h2] ev show ?thesis
    by (auto simp: NewCircularBuffer_eq Len_def)
qed

text \<open>
  Claim C10. \<open>Close\<close> is single-shot: on a buffer whose notification channel is open, the
  first \<open>Close\<close> succeeds, marks the buffer closed and closes the channel, leaving storage,
  length and cursor as they were; a second \<open>Close\<close> on the result panics with "close of
  closed channel". This holds for every buffer \<open>NewCircularBuffer\<close> returns.
\<close>

theorem Close_single_shot:
  "(\<not> chclosed (C c) \<longrightarrow>
      (\<exists>c1. Close c = Inr c1 \<and> closed c1 \<and> chclosed (C c1) \<and>
            buf c1 = buf c \<and> len c1 = len c \<and> index c1 = index c \<and>
            Close c1 = Inl CloseOfClosedChannel)) \<and>
   (0 \<le> n \<longrightarrow>
      (\<exists>c0 c1. NewCircularBuffer n = Inr c0 \<and> Close c0 = Inr c1 \<and>
            Close c1 = Inl CloseOfClosedChannel))"
  by (auto simp: Close_def chan_close_def Let_def NewCircularBuffer_eq make_chan_def)

theorem Close_single_shot_witness:
  "\<not> chclosed (C \<lparr>C = make_chan, buf = ''abcd'', len = 3, index = 2, closed = False\<rparr>) \<and>
   (0::int) \<le> 4 \<and>
   Close \<lparr>C = make_chan, buf = ''abcd'', len = 3, index = 2, closed = False\<rparr> =
     Inr \<lparr>C = \<lparr>pending = False, chclosed = True\<rparr>, buf = ''abcd'', len = 3, index = 2, closed = True\<rparr> \<and>
   Close \<lparr>C = \<lparr>pending = False, chclosed = True\<rparr>, buf = ''abcd'', len = 3, index = 2, closed = True\<rparr> =
     Inl CloseOfClosedChannel"
  using Close_single_shot [of "\<lparr>C = make_chan, buf = ''abcd'', len = 3, index = 2, closed = False\<rparr>" 4]
  by (auto simp: make_chan_def Close_def chan_close_def Let_def)

text \<open>
  Claim C6. Close semantics of the buffer. After \<open>Close\<close> (on every closed buffer) every
  \<open>Write\<close>, of either version, returns \<open>(0, EOF)\<close> and changes nothing. On every buffer that
  satisfies the invariant, \<open>Peek\<close> returns without panic and its error is \<open>EOF\<close> if and only
  if the buffer is closed and its length is 0, and is \<open>nil\<close> otherwise; the same holds for
  \<open>Read\<close> on a buffer of non-zero capacity. A closed buffer that still holds unread bytes
  gives \<open>Peek\<close> and \<open>Read\<close> its first \<open>min (len p) length\<close> bytes with a \<open>nil\<close> error, and
  after the \<open>Read\<close> it is still closed and holds the remaining bytes.
\<close>

theorem Close_semantics:
  "(closed c \<longrightarrow> Write c p = Inr (c, 0, Some EOF) \<and> WriteGrow c p = Inr (c, 0, Some EOF)) \<and>
   (Close c = Inr c1 \<longrightarrow> closed c1 \<and> Write c1 p = Inr (c1, 0, Some EOF)) \<and>
   (buffer_inv c \<longrightarrow>
      (\<exists>p' n err. Peek c p = Inr (p', n, err) \<and>
         (err = Some EOF \<longleftrightarrow> closed c \<and> len c = 0) \<and> (err \<noteq> Some EOF \<longrightarrow> err = None))) \<and>
   (buffer_inv c \<and> buf c \<noteq> [] \<longrightarrow>
      (\<exists>c' p' n err. Read c p = Inr (c', p', n, err) \<and>
         (err = Some EOF \<longleftrightarrow> closed c \<and> len c = 0) \<and> (err \<noteq> Some EOF \<longrightarrow> err = None))) \<and>
   (buffer_inv c \<and> buf c \<noteq> [] \<and> closed c \<and> 0 < len c \<longrightarrow>
      Peek c p = Inr (take (min (length p) (nat (len c))) (contents c)
                        @ drop (min (length p) (nat (len c))) p,
                      int (min (length p) (nat (len c))), None) \<and>
      (\<exists>c'. Read c p = Inr (c', take (min (length p) (nat (len c))) (contents c)
                               @ drop (min (length p) (nat (len c))) p,
                            int (min (length p) (nat (len c))), None) \<and>
            closed c' \<and> buffer_inv c' \<and>
            contents c' = drop (min (length p) (nat (len c))) (contents c) \<and>
            len c' = len c - int (min (length p) (nat (len c)))))"
proof (intro conjI impI)
  show "Write c p = Inr (c, 0, Some EOF)" if "closed c"
    using that by (simp add: Write_def)
  show "WriteGrow c p = Inr (c, 0, Some EOF)" if "closed c"
    using that by (simp add: WriteGrow_def)
next
  assume cl: "Close c = Inr c1"
  then show "closed c1"
    by (auto simp: Close_def Let_def chan_close_def split: if_splits)
  then show "Write c1 p = Inr (c1, 0, Some EOF)"
    by (simp add: Write_def)
next
  assume inv: "buffer_inv c"
  show "\<exists>p' n err. Peek c p = Inr (p', n, err) \<and>
         (err = Some EOF \<longleftrightarrow> closed c \<and> len c = 0) \<and> (err \<noteq> Some EOF \<longrightarrow> err = None)"
  proof (cases "len c = 0 \<and> closed c")
    case True
    then show ?thesis by (simp add: Peek_def peek_def)
  next
    case False
    from peek_contents [OF inv False, of p] False show ?thesis
      by (auto simp: Peek_def)
  qed
next
  assume "buffer_inv c \<and> buf c \<noteq> []"
  then have inv: "buffer_inv c" and ne: "buf c \<noteq> []" by simp_all
  show "\<exists>c' p' n err. Read c p = Inr (c', p', n, err) \<and>
         (err = Some EOF \<longleftrightarrow> closed c \<and> len c = 0) \<and> (err \<noteq> Some EOF \<longrightarrow> err = None)"
  proof (cases "len c = 0 \<and> closed c")
    case True
    then show ?thesis by (simp add: Read_def peek_def)
  next
    case False
    from Read_contents [OF inv ne False, of p] False show ?thesis
      by auto
  qed
next
  assume a: "buffer_inv c \<and> buf c \<noteq> [] \<and> closed c \<and> 0 < len c"
  then have nz: "\<not> (len c = 0 \<and> closed c)" by simp
  from a peek_contents [OF _ nz, of p]
  show "Peek c p = Inr (take (min (length p) (nat (len c))) (contents c)
                        @ drop (min (length p) (nat (len c))) p,
                      int (min (length p) (nat (len c))), None)"
    by (simp add: Peek_def)
  from a Read_contents [OF _ _ nz, of p]
  show "\<exists>c'. Read c p = Inr (c', take (min (length p) (nat (len c))) (contents c)
                               @ drop (min (length p) (nat (len c))) p,
                            int (min (length p) (nat (len c))), None) \<and>
            closed c' \<and> buffer_inv c' \<and>
            contents c' = drop (min (length p) (nat (len c))) (contents c) \<and>
            len c' = len c - int (min (length p) (nat (len c)))"
    by auto
qed

theorem Close_semantics_witness:
  "Close \<lparr>C = make_chan, buf = ''cdab'', len = 3, index = 2, closed = False\<rparr> =
     Inr \<lparr>C = \<lparr>pending = False, chclosed = True\<rparr>, buf = ''cdab'', len = 3, index = 2, closed = True\<rparr> \<and>
   buffer_inv \<lparr>C = \<lparr>pending = False, chclosed = True\<rparr>, buf = ''cdab'', len = 3, index = 2, closed = True\<rparr> \<and>
   Write \<lparr>C = \<lparr>pending = False, chclosed = True\<rparr>, buf = ''cdab'', len = 3, index = 2, closed = True\<rparr> ''x''
     = Inr (\<lparr>C = \<lparr>pending = False, chclosed = True\<rparr>, buf = ''cdab'', len = 3, index = 2, closed = True\<rparr>,
            0, Some EOF) \<and>
   Peek \<lparr>C = \<lparr>pending = False, chclosed = True\<rparr>, buf = ''cdab'', len = 3, index = 2, closed = True\<rparr> ''..''
     = Inr (''ab'', 2, None) \<and>
   Read \<lparr>C = \<lparr>pending = False, chclosed = True\<rparr>, buf = ''cdab'', len = 3, index = 2, closed = True\<rparr> ''....''
     = Inr (\<lparr>C = \<lparr>pending = False, chclosed = True\<rparr>, buf = ''cdab'', len = 0, index = 1, closed = True\<rparr>,
            ''abc.'', 3, None) \<and>
   Read \<lparr>C = \<lparr>pending = False, chclosed = True\<rparr>, buf = ''cdab'', len = 0, index = 1, closed = True\<rparr> ''....''
     = Inr (\<lparr>C = \<lparr>pending = False, chclosed = True\<rparr>, buf = ''cdab'', len = 0, index = 1, closed = True\<rparr>,
            ''....'', 0, Some EOF)"
proof -
  let ?c = "\<lparr>C = make_chan, buf = ''cdab'', len = 3, index = 2, closed = False\<rparr>"
  let ?c1 = "\<lparr>C = \<lparr>pending = False, chclosed = True\<rparr>, buf = ''cdab'', len = 3, index = 2, closed = True\<rparr>"
  have cl: "Close ?c = Inr ?c1" by (simp add: buffer_eval)
  have inv: "buffer_inv ?c1" by (simp add: buffer_inv_def)
  have cont: "contents ?c1 = ''abc''" by (simp add: contents_def)
  from Close_semantics [of ?c1 "''x''" ?c1] Close_semantics [of ?c "''x''" ?c1] cl
  have w: "Write ?c1 ''x'' = Inr (?c1, 0, Some EOF)" by simp
  from Close_semantics [of ?c1 "''..''" ?c1] inv cont
  have pk: "Peek ?c1 ''..'' = Inr (''ab'', 2, None)" by simp
  have rd: "Read ?c1 ''....'' = Inr (\<lparr>C = \<lparr>pending = False, chclosed = True\<rparr>, buf = ''cdab'', len = 0, index = 1, closed = True\<rparr>,
            ''abc.'', 3, None)"
    by (simp add: buffer_eval)
  have rd2: "Read \<lparr>C = \<lparr>pending = False, chclosed = True\<rparr>, buf = ''cdab'', len = 0, index = 1, closed = True\<rparr> ''....''
     = Inr (\<lparr>C = \<lparr>pending = False, chclosed = True\<rparr>, buf = ''cdab'', len = 0, index = 1, closed = True\<rparr>,
            ''....'', 0, Some EOF)"
    by (simp add: buffer_eval)
  from cl inv w pk rd rd2 show ?thesis by simp
qed

lemma sdiv_nonneg: "0 \<le> a \<Longrightarrow> 0 < b \<Longrightarrow> (a::int) sdiv b = a div b"
  by (cases "a = 0") (simp_all add: signed_divide_int_def)

lemma resize_contents:
  assumes inv: "buffer_inv c" and nc: "\<not> closed c" and ms: "len c \<le> minSize" "0 < minSize"
  shows "\<exists>c1. resize c minSize = Inr (c1, grow_target (Capacity c) minSize, None) \<and>
           buffer_inv c1 \<and> buf c1 \<noteq> [] \<and> contents c1 = contents c \<and> index c1 = 0 \<and>
           len c1 = len c \<and> closed c1 = closed c \<and> C c1 = C c \<and>
           Capacity c1 = grow_target (Capacity c) minSize"
proof -
  define N where "N = int (length (buf c))"
  define newSize where "newSize = grow_target N minSize"
  have N0: "0 \<le> N" by (simp add: N_def)
  have q: "(N * (if N > 8192 then 5 else 8)) sdiv 4 = (if N \<le> 8192 then 2 * N else (N * 5) div 4)"
    using N0 by (simp add: sdiv_nonneg)
  have ns: "(if minSize > (N * (if N > 8192 then 5 else 8)) sdiv 4 then minSize
             else (N * (if N > 8192 then 5 else 8)) sdiv 4) = newSize"
    unfolding q newSize_def grow_target_def Let_def by simp
  have ge: "minSize \<le> newSize" "0 < newSize"
    using ms by (auto simp: newSize_def grow_target_def Let_def)
  from inv have l0: "0 \<le> len c" by (simp add: buffer_inv_def)
  define l where "l = nat (len c)"
  define nb where "nb = contents c @ replicate (nat newSize - l) (CHR 0x00)"
  have mk: "go_make newSize = Inr (replicate (nat newSize) (CHR 0x00))"
    using ge by (simp add: go_make_def)
  have ml: "min (length (replicate (nat newSize) (CHR 0x00))) (nat (len c)) = l"
    using ge ms l0 by (simp add: l_def)
  have lc: "length (contents c) = l" using length_contents [OF inv] by (simp add: l_def)
  have pk: "peek c (replicate (nat newSize) (CHR 0x00)) = Inr (nb, int l, None)"
    using peek_contents [OF inv, of "replicate (nat newSize) (CHR 0x00)"] nc
    unfolding ml nb_def using lc by simp
  have rs: "resize c minSize = Inr (c\<lparr>buf := nb, index := 0\<rparr>, int (length nb), None)"
    unfolding resize_def Let_def N_def [symmetric] ns mk pbind_Inr pk by simp
  have lnb: "int (length nb) = newSize"
    using ge ms l0 lc by (simp add: nb_def l_def)
  have inv1: "buffer_inv (c\<lparr>buf := nb, index := 0\<rparr>)"
    using inv ge ms lnb by (auto simp: buffer_inv_def)
  have "contents (c\<lparr>buf := nb, index := 0\<rparr>) = take l nb"
    unfolding contents_def [of "c\<lparr>buf := nb, index := 0\<rparr>"] by (simp add: l_def)
  also have "\<dots> = contents c" using lc by (simp add: nb_def)
  finally have cont: "contents (c\<lparr>buf := nb, index := 0\<rparr>) = contents c" .
  have ne: "nb \<noteq> []" using lnb ge by auto
  show ?thesis
    using rs lnb inv1 cont ne by (simp add: Capacity_def newSize_def N_def)
qed

text \<open>
  Claim C7. Auto-grow policy of the growing version's \<open>Write\<close>: on every open buffer that
  satisfies the invariant, a \<open>Write\<close> of \<open>k\<close> bytes with \<open>k > capacity - length\<close> reallocates
  (\<open>resize\<close>) to the capacity \<open>grow_target capacity (k + length)\<close>, that is double the old
  capacity when it is at most 8192 and 125 percent of it otherwise, or the requested size
  \<open>k + length\<close> when that is larger; the reallocation keeps the buffered bytes in order and
  sets the cursor to 0; the \<open>Write\<close> then returns \<open>(k, nil)\<close> and the logical contents are the
  old contents followed by the \<open>k\<close> bytes.
\<close>

theorem WriteGrow_auto_grow:
  assumes "buffer_inv c" and "\<not> closed c" and "int (length p) > Capacity c - Len c"
  shows "\<exists>c1 c'.
           resize c (int (length p) + Len c)
             = Inr (c1, grow_target (Capacity c) (int (length p) + Len c), None) \<and>
           Capacity c1 = grow_target (Capacity c) (int (length p) + Len c) \<and>
           contents c1 = contents c \<and> index c1 = 0 \<and>
           WriteGrow c p = Inr (c', int (length p), None) \<and>
           Capacity c' = grow_target (Capacity c) (int (length p) + Len c) \<and>
           index c' = 0 \<and> contents c' = contents c @ p \<and>
           Len c' = Len c + int (length p) \<and> buffer_inv c'"
proof -
  from assms(1) have l0: "0 \<le> len c" "len c \<le> int (length (buf c))"
    by (simp_all add: buffer_inv_def)
  from assms(3) l0 have k0: "0 < int (length p) + len c" "len c \<le> int (length p) + len c"
    by (simp_all add: Capacity_def Len_def)
  from resize_contents [OF assms(1,2) k0(2,1)] obtain c1 where
    rs: "resize c (int (length p) + len c)
           = Inr (c1, grow_target (Capacity c) (int (length p) + len c), None)"
    and c1: "buffer_inv c1" "buf c1 \<noteq> []" "contents c1 = contents c" "index c1 = 0"
      "len c1 = len c" "closed c1 = closed c"
      "Capacity c1 = grow_target (Capacity c) (int (length p) + len c)"
    by blast
  have "int (length p) + len c \<le> grow_target (Capacity c) (int (length p) + len c)"
    by (simp add: grow_target_def Let_def)
  with c1 have fit: "int (length p) \<le> int (length (buf c1)) - len c1"
    by (simp add: Capacity_def)
  from write_at_tail_contents [OF c1(1,2) fit] obtain c' where
    w: "write_at_tail c1 p = Inr (c', int (length p), None)" and
    c': "buffer_inv c'" "contents c' = contents c1 @ p" "length (buf c') = length (buf c1)"
      "index c' = index c1" "len c' = len c1 + int (length p)"
    by blast
  from assms(2,3) rs w have "WriteGrow c p = Inr (c', int (length p), None)"
    by (simp add: WriteGrow_def Capacity_def Len_def)
  with rs c1 c' show ?thesis
    by (simp add: Capacity_def Len_def)
qed

theorem WriteGrow_auto_grow_witness:
  "buffer_inv \<lparr>C = make_chan, buf = ''cdab'', len = 3, index = 2, closed = False\<rparr> \<and>
   \<not> closed \<lparr>C = make_chan, buf = ''cdab'', len = 3, index = 2, closed = False\<rparr> \<and>
   int (length ''xyz'') > Capacity \<lparr>C = make_chan, buf = ''cdab'', len = 3, index = 2, closed = False\<rparr>
      - Len \<lparr>C = make_chan, buf = ''cdab'', len = 3, index = 2, closed = False\<rparr> \<and>
   grow_target 4 6 = 8 \<and> grow_target 4 13 = 13 \<and> grow_target 10001 10002 = 12501 \<and>
   WriteGrow \<lparr>C = make_chan, buf = ''cdab'', len = 3, index = 2, closed = False\<rparr> ''xyz'' =
     Inr (\<lparr>C = \<lparr>pending = True, chclosed = False\<rparr>,
           buf = ''abcxyz'' @ replicate 2 (CHR 0x00), len = 6, index = 0, closed = False\<rparr>, 3, None) \<and>
   (\<exists>c'. WriteGrow \<lparr>C = make_chan, buf = ''cdab'', len = 3, index = 2, closed = False\<rparr> ''xyz'' =
       Inr (c', 3, None) \<and> Capacity c' = 8 \<and> contents c' = ''abcxyz'')"
proof -
  let ?c = "\<lparr>C = make_chan, buf = ''cdab'', len = 3, index = 2, closed = False\<rparr>"
  have h1: "buffer_inv ?c" by (simp add: buffer_inv_def make_chan_def)
  have h2: "\<not> closed ?c" by simp
  have h3: "int (length ''xyz'') > Capacity ?c - Len ?c" by (simp add: Capacity_def Len_def)
  have g: "grow_target 4 6 = 8" "grow_target 4 13 = 13" "grow_target 10001 10002 = 12501"
    by (simp_all add: grow_target_def)
  have cont: "contents ?c = ''abc''" by (simp add: contents_def)
  have ev: "WriteGrow ?c ''xyz'' =
     Inr (\<lparr>C = \<lparr>pending = True, chclosed = False\<rparr>,
           buf = ''abcxyz'' @ replicate 2 (CHR 0x00), len = 6, index = 0, closed = False\<rparr>, 3, None)"
    by (simp add: WriteGrow_def resize_def buffer_eval signed_divide_int_def)
  from WriteGrow_auto_grow [OF h1 h2 h3] g cont
  have "\<exists>c'. WriteGrow ?c ''xyz'' = Inr (c', 3, None) \<and> Capacity c' = 8 \<and> contents c' = ''abcxyz''"
    by (auto simp: Capacity_def Len_def)
  with h1 h2 h3 g ev show ?thesis by blast
qed

section \<open>Properties of the scanner and of the filter\<close>

lemma Read_chan:
  assumes inv: "buffer_inv c" and ne: "buf c \<noteq> []" and nc: "\<not> (len c = 0 \<and> closed c)"
    and r: "Read c p = Inr (c', p', n, err)"
  shows "C c' = (if len c' \<noteq> 0 \<and> \<not> closed c then (C c)\<lparr>pending := True\<rparr> else C c)"
proof -
  from inv have ch: "chclosed (C c) \<longrightarrow> closed c" by (simp add: buffer_inv_def)
  define m where "m = int (min (length p) (nat (len c)))"
  from r peek_contents [OF inv nc, of p] consume_eq [OF ne ch, of m]
  have "c' = c\<lparr>index := (index c + min m (len c)) smod int (length (buf c)),
            len := len c - min m (len c),
            C := (if len c - min m (len c) \<noteq> 0 \<and> \<not> closed c then (C c)\<lparr>pending := True\<rparr> else C c)\<rparr>"
    by (auto simp: Read_def m_def [symmetric])
  then show ?thesis by simp
qed

lemma Read_eof:
  "len c = 0 \<Longrightarrow> closed c \<Longrightarrow> Read c p = Inr (c, p, 0, Some EOF)"
  by (simp add: Read_def peek_def)

lemma read_loop_data:
  assumes "Read cb (replicate (sbuf_len s - (sstart s + length (swindow s))) (CHR 0x00))
             = Inr (cb1, p1, n, None)"
    and "0 < n" and "n \<le> int (sbuf_len s - (sstart s + length (swindow s)))"
  shows "read_loop k s cb = Inr (s\<lparr>swindow := swindow s @ take (nat n) p1, sempties := 0\<rparr>, cb1)"
  using assms by (subst read_loop.simps) (simp add: Let_def)

text \<open>The first iteration of \<open>Scan\<close> on a new scanner reads everything buffered.\<close>

lemma scan_step_first_read:
  assumes inv: "buffer_inv cb" and ne: "buf cb \<noteq> []"
    and l: "0 < len cb" "len cb \<le> 4096"
  shows "\<exists>cb1. scan_step split NewScanner cb =
            Inr (Inr (NewScanner\<lparr>sbuf_len := 4096, swindow := contents cb\<rparr>, cb1)) \<and>
          buffer_inv cb1 \<and> buf cb1 = buf cb \<and> len cb1 = 0 \<and> closed cb1 = closed cb \<and>
          C cb1 = C cb"
proof -
  define k where "k = nat (len cb)"
  have nc: "\<not> (len cb = 0 \<and> closed cb)" using l by simp
  have mk: "min (length (replicate 4096 (CHR 0x00))) (nat (len cb)) = k"
    using l by (simp add: k_def)
  have lc: "length (contents cb) = k" using length_contents [OF inv] by (simp add: k_def)
  from Read_contents [OF inv ne nc, of "replicate 4096 (CHR 0x00)"] obtain cb1 where
    R: "Read cb (replicate 4096 (CHR 0x00))
          = Inr (cb1, take k (contents cb) @ drop k (replicate 4096 (CHR 0x00)), int k, None)"
    and c1: "buffer_inv cb1" "buf cb1 = buf cb" "closed cb1 = closed cb" "len cb1 = len cb - int k"
    unfolding mk by blast
  from c1 l have l1: "len cb1 = 0" by (simp add: k_def)
  from Read_chan [OF inv ne nc R] l1 have ch: "C cb1 = C cb" by simp
  have tk: "take (nat (int k)) (take k (contents cb) @ drop k (replicate 4096 (CHR 0x00))) = contents cb"
    using lc by simp
  have k0: "0 < int k" "int k \<le> 4096" using l by (simp_all add: k_def)
  have rl: "read_loop maxConsecutiveEmptyReads
        (NewScanner\<lparr>sbuf_len := 4096\<rparr>) cb
      = Inr (NewScanner\<lparr>sbuf_len := 4096, swindow := contents cb\<rparr>, cb1)"
  proof -
    have "read_loop maxConsecutiveEmptyReads (NewScanner\<lparr>sbuf_len := 4096\<rparr>) cb
        = Inr (NewScanner\<lparr>sbuf_len := 4096\<rparr>\<lparr>swindow := swindow (NewScanner\<lparr>sbuf_len := 4096\<rparr>)
              @ take (nat (int k)) (take k (contents cb) @ drop k (replicate 4096 (CHR 0x00))),
            sempties := 0\<rparr>, cb1)"
      by (rule read_loop_data) (use R k0 in \<open>simp_all add: NewScanner_def\<close>)
    then show ?thesis unfolding tk by (simp add: NewScanner_def)
  qed
  have tt: "scan_try_token split NewScanner = Inr (Inr NewScanner)"
    by (simp add: scan_try_token_def NewScanner_def)
  have mr: "scan_make_room NewScanner = Inr (NewScanner\<lparr>sbuf_len := 4096\<rparr>)"
    by (simp add: scan_make_room_def NewScanner_def maxTokenSize_def startBufSize_def maxInt_def Let_def)
  have "scan_step split NewScanner cb =
      Inr (Inr (NewScanner\<lparr>sbuf_len := 4096, swindow := contents cb\<rparr>, cb1))"
  proof -
    have e: "serr NewScanner = None" by (simp add: NewScanner_def)
    show ?thesis unfolding scan_step_def tt by (simp add: e mr rl)
  qed
  with c1 l1 ch show ?thesis by blast
qed

lemma Scan_first_token:
  assumes inv: "buffer_inv cb" and ne: "buf cb \<noteq> []"
    and l: "0 < len cb" "len cb \<le> 4096"
    and sp: "split (contents cb) False = (adv, Some tok, None)"
    and a: "0 \<le> adv" "adv \<le> len cb"
  shows "\<exists>cb1. Scan split NewScanner cb =
            Inr (True, NewScanner\<lparr>sbuf_len := 4096, sstart := nat adv,
                         swindow := drop (nat adv) (contents cb), stoken := Some tok\<rparr>, cb1) \<and>
          buffer_inv cb1 \<and> buf cb1 = buf cb \<and> len cb1 = 0 \<and> closed cb1 = closed cb \<and>
          C cb1 = C cb"
proof -
  from scan_step_first_read [OF inv ne l, of split] obtain cb1 where
    st: "scan_step split NewScanner cb =
            Inr (Inr (NewScanner\<lparr>sbuf_len := 4096, swindow := contents cb\<rparr>, cb1))"
    and c1: "buffer_inv cb1" "buf cb1 = buf cb" "len cb1 = 0" "closed cb1 = closed cb" "C cb1 = C cb"
    by blast
  have lc: "length (contents cb) = nat (len cb)" by (rule length_contents [OF inv])
  with l have nonempty: "contents cb \<noteq> []" by auto
  have adv: "advance (NewScanner\<lparr>sbuf_len := 4096, swindow := contents cb\<rparr>) adv =
      (True, NewScanner\<lparr>sbuf_len := 4096, sstart := nat adv, swindow := drop (nat adv) (contents cb)\<rparr>)"
    using a lc by (simp add: advance_def NewScanner_def)
  have tt: "scan_try_token split (NewScanner\<lparr>sbuf_len := 4096, swindow := contents cb\<rparr>) =
      Inr (Inl (True, NewScanner\<lparr>sbuf_len := 4096, sstart := nat adv,
                         swindow := drop (nat adv) (contents cb), stoken := Some tok\<rparr>))"
    unfolding scan_try_token_def using nonempty sp a l lc
    by (simp add: NewScanner_def advance_def)
  have st2: "scan_step split (NewScanner\<lparr>sbuf_len := 4096, swindow := contents cb\<rparr>) cb1 =
      Inr (Inl (True, NewScanner\<lparr>sbuf_len := 4096, sstart := nat adv,
                         swindow := drop (nat adv) (contents cb), stoken := Some tok\<rparr>, cb1))"
    unfolding scan_step_def tt by simp
  have "Scan split NewScanner cb = Inr (True, NewScanner\<lparr>sbuf_len := 4096, sstart := nat adv,
                         swindow := drop (nat adv) (contents cb), stoken := Some tok\<rparr>, cb1)"
    unfolding Scan_def
    by (simp add: NewScanner_def [THEN arg_cong, of sdone]
          scan_loop.simps [of split NewScanner cb] st
          scan_loop.simps [of split "NewScanner\<lparr>sbuf_len := 4096, swindow := contents cb\<rparr>" cb1] st2)
  with c1 show ?thesis by blast
qed

lemma filter_written_state:
  assumes "0 < length p" and "length p \<le> 4000"
  shows "\<exists>f1. filter_written split terps p = Inr f1 \<and>
           Interpreters f1 = terps \<and> splitter f1 = split \<and> scanner f1 = NewScanner \<and>
           outputs f1 = [] \<and> buffer_inv (cbuf f1) \<and> buf (cbuf f1) \<noteq> [] \<and>
           contents (cbuf f1) = p \<and> len (cbuf f1) = int (length p) \<and>
           \<not> closed (cbuf f1) \<and> C (cbuf f1) = \<lparr>pending = True, chclosed = False\<rparr> \<and>
           length (buf (cbuf f1)) = 4000"
proof -
  obtain c0 where n: "NewCircularBuffer 4000 = Inr c0" by (simp add: NewCircularBuffer_eq)
  from NewCircularBuffer_inv [OF _ n] have
    c0: "buffer_inv c0" "contents c0 = []" "\<not> closed c0" "length (buf c0) = 4000" "len c0 = 0"
      "C c0 = make_chan"
    by simp_all
  from c0 have ne: "buf c0 \<noteq> []" by auto
  from assms c0 have fit: "int (length p) \<le> int (length (buf c0)) - len c0" by simp
  from write_at_tail_contents [OF c0(1) ne fit] obtain c1 where
    w: "write_at_tail c0 p = Inr (c1, int (length p), None)" and
    c1: "buffer_inv c1" "contents c1 = contents c0 @ p" "length (buf c1) = length (buf c0)"
      "len c1 = len c0 + int (length p)" "closed c1 = closed c0"
      "C c1 = (if len c0 + int (length p) \<noteq> 0 \<and> \<not> closed c0
                   then (C c0)\<lparr>pending := True\<rparr> else C c0)"
    by blast
  from fit c0 w have W: "Write c0 p = Inr (c1, int (length p), None)" by (simp add: Write_def)
  have "filter_written split terps p =
      Inr \<lparr>Interpreters = terps, cbuf = c1, splitter = split, scanner = NewScanner, outputs = []\<rparr>"
    by (simp add: filter_written_def NewFilter_def n Filter_Write_def W)
  moreover from c1 c0 assms have "buf c1 \<noteq> []" by auto
  moreover from c1 c0 assms have "C c1 = \<lparr>pending = True, chclosed = False\<rparr>"
    by (simp add: make_chan_def)
  ultimately show ?thesis using c1 c0 by simp
qed

lemma consumer_one_token:
  assumes p: "0 < length p" "length p \<le> 4000"
    and sp: "split p False = (adv, Some tok, None)"
    and a: "0 \<le> adv" "adv \<le> int (length p)"
  shows "\<exists>f2. run_consumer (Suc (Suc n)) (filter_written split terps p) = Inr (Waiting f2) \<and>
           outputs f2 = [snd (run_interpreters terps tok Map.empty)] \<and>
           swindow (scanner f2) = drop (nat adv) p \<and> Len (cbuf f2) = 0"
proof -
  from filter_written_state [OF p, of split terps] obtain f1 where
    fw: "filter_written split terps p = Inr f1" and
    f1: "Interpreters f1 = terps" "splitter f1 = split" "scanner f1 = NewScanner"
      "outputs f1 = []" "buffer_inv (cbuf f1)" "buf (cbuf f1) \<noteq> []"
      "contents (cbuf f1) = p" "len (cbuf f1) = int (length p)"
      "\<not> closed (cbuf f1)" "C (cbuf f1) = \<lparr>pending = True, chclosed = False\<rparr>"
    by blast
  define cb where "cb = (cbuf f1)\<lparr>C := \<lparr>pending = False, chclosed = False\<rparr>\<rparr>"
  have cb: "buffer_inv cb" "buf cb \<noteq> []" "contents cb = p" "len cb = int (length p)"
    "\<not> closed cb" "C cb = \<lparr>pending = False, chclosed = False\<rparr>"
    using f1 by (simp_all add: cb_def buffer_inv_def contents_def)
  have rc: "chan_recv (C (cbuf f1)) = Some \<lparr>pending = False, chclosed = False\<rparr>"
    using f1 by (simp add: chan_recv_def)
  from cb p have l: "0 < len cb" "len cb \<le> 4096" by simp_all
  from sp cb have sp': "split (contents cb) False = (adv, Some tok, None)" by simp
  from a cb have a': "adv \<le> len cb" by simp
  from Scan_first_token [of cb split adv tok, OF cb(1,2) l sp' a(1) a'] obtain cb1 where
    sc: "Scan split NewScanner cb =
            Inr (True, NewScanner\<lparr>sbuf_len := 4096, sstart := nat adv,
                         swindow := drop (nat adv) (contents cb), stoken := Some tok\<rparr>, cb1)"
    and c1: "len cb1 = 0" "C cb1 = C cb"
    by blast
  define f2 where "f2 = f1\<lparr>cbuf := cb1,
      scanner := NewScanner\<lparr>sbuf_len := 4096, sstart := nat adv,
                         swindow := drop (nat adv) (contents cb), stoken := Some tok\<rparr>,
      outputs := [snd (run_interpreters terps tok Map.empty)]\<rparr>"
  have body: "consumer_body (f1\<lparr>cbuf := cb\<rparr>) = Inr f2"
    by (simp add: consumer_body_def f1 sc f2_def Bytes_def)
  have rc2: "chan_recv (C (cbuf f2)) = None"
    using c1 cb by (simp add: f2_def chan_recv_def)
  have "consumer_loop (Suc (Suc n)) f1 = Inr (Waiting f2)"
    using rc body rc2 by (simp add: cb_def)
  then have "run_consumer (Suc (Suc n)) (filter_written split terps p) = Inr (Waiting f2)"
    by (simp add: run_consumer_def fw)
  moreover have "outputs f2 = [snd (run_interpreters terps tok Map.empty)]"
    "swindow (scanner f2) = drop (nat adv) p" "Len (cbuf f2) = 0"
    using c1 cb by (simp_all add: f2_def Len_def)
  ultimately show ?thesis by blast
qed

text \<open>
  Claim C9, as the code has it. \<open>NewFilter\<close> takes a splitter, the output function and the
  interpreters, and no capacity: whatever it is given, the ring buffer it allocates has
  capacity 4000 and is empty.
\<close>

theorem NewFilter_capacity:
  "\<exists>f. NewFilter split terps = Inr f \<and> Capacity (cbuf f) = 4000 \<and> Len (cbuf f) = 0 \<and>
        Interpreters f = terps \<and> splitter f = split"
  by (simp add: NewFilter_def NewCircularBuffer_eq Capacity_def Len_def)

theorem NewFilter_capacity_counterexample:
  "(case NewFilter JSONSplit [raw_interpreter] of
      Inr f \<Rightarrow> Capacity (cbuf f) = 4000 \<and> Capacity (cbuf f) \<noteq> 8192
    | Inl pn \<Rightarrow> False)"
  by (simp add: NewFilter_def NewCircularBuffer_eq Capacity_def)

section \<open>Consume\<close>





section \<open>The consumer task\<close>

lemma buffer_kept_refl: "buffer_inv cb \<Longrightarrow> buffer_kept cb cb"
  by (simp add: buffer_kept_def)

lemma buffer_kept_trans: "buffer_kept a b \<Longrightarrow> buffer_kept b c \<Longrightarrow> buffer_kept a c"
  by (auto simp: buffer_kept_def)

lemma Read_kept:
  assumes inv: "buffer_inv c" and ne: "buf c \<noteq> []"
  shows "\<exists>c1 p1 n err. Read c p = Inr (c1, p1, n, err) \<and> buffer_kept c c1"
proof (cases "len c = 0 \<and> closed c")
  case True
  with inv show ?thesis by (simp add: Read_eof buffer_kept_def)
next
  case False
  from Read_contents [OF inv ne False, of p] obtain c1 where
    R: "Read c p = Inr (c1, take (min (length p) (nat (len c))) (contents c)
                       @ drop (min (length p) (nat (len c))) p,
                 int (min (length p) (nat (len c))), None)"
    and c1: "buffer_inv c1" "buf c1 = buf c" "closed c1 = closed c"
      "len c1 = len c - int (min (length p) (nat (len c)))"
    by blast
  from Read_chan [OF inv ne False R] have "chclosed (C c1) = chclosed (C c)" by simp
  with R c1 show ?thesis by (simp add: buffer_kept_def)
qed

lemma read_loop_kept:
  assumes "buffer_inv cb" and "buf cb \<noteq> []"
  shows "\<exists>s1 cb1. read_loop k s cb = Inr (s1, cb1) \<and> buffer_kept cb cb1"
  using assms
proof (induction k arbitrary: s cb)
  case 0
  let ?room = "sbuf_len s - (sstart s + length (swindow s))"
  from Read_kept [OF "0.prems", of "replicate ?room (CHR 0x00)"] obtain c1 p1 n err where
    R: "Read cb (replicate ?room (CHR 0x00)) = Inr (c1, p1, n, err)" and k: "buffer_kept cb c1"
    by blast
  show ?case
    by (subst read_loop.simps) (auto simp: Let_def R k split: option.splits)
next
  case (Suc k)
  let ?room = "sbuf_len s - (sstart s + length (swindow s))"
  from Read_kept [OF Suc.prems, of "replicate ?room (CHR 0x00)"] obtain c1 p1 n err where
    R: "Read cb (replicate ?room (CHR 0x00)) = Inr (c1, p1, n, err)" and k: "buffer_kept cb c1"
    by blast
  from k Suc.prems have c1: "buffer_inv c1" "buf c1 \<noteq> []" by (simp_all add: buffer_kept_def)
  have ih: "\<exists>s2 cb2. read_loop k s' c1 = Inr (s2, cb2) \<and> buffer_kept cb cb2" for s'
    using Suc.IH [OF c1, of s'] buffer_kept_trans [OF k] by blast
  show ?case
  proof (cases "n < 0 \<or> int ?room < n \<or> err \<noteq> None \<or> 0 < n")
    case True
    then show ?thesis
      by (subst read_loop.simps) (auto simp: Let_def R k split: option.splits)
  next
    case False
    then have "read_loop (Suc k) s cb = read_loop k (s\<lparr>swindow := swindow s @ take (nat n) p1\<rparr>) c1"
      by (subst read_loop.simps) (auto simp: Let_def R split: option.splits)
    with ih show ?thesis by simp
  qed
qed

lemma scan_try_token_no_panic:
  assumes "split_advances split"
  shows "\<exists>r. scan_try_token split s = Inr r"
proof (cases "swindow s \<noteq> [] \<or> serr s \<noteq> None")
  case False
  then show ?thesis by (simp add: scan_try_token_def)
next
  case True
  obtain adv tok err where sp: "split (swindow s) (serr s \<noteq> None) = (adv, tok, err)"
    by (cases "split (swindow s) (serr s \<noteq> None)") auto
  show ?thesis
  proof (cases "\<exists>t. tok = Some t \<and> err = None")
    case True
    with sp assms have "0 < adv" by (auto simp: split_advances_def)
    with True sp \<open>swindow s \<noteq> [] \<or> serr s \<noteq> None\<close> show ?thesis
      by (auto simp: scan_try_token_def Let_def split: prod.splits bool.splits)
  next
    case False
    with sp \<open>swindow s \<noteq> [] \<or> serr s \<noteq> None\<close> show ?thesis
      by (cases tok; cases err)
         (auto simp: scan_try_token_def Let_def split: prod.splits bool.splits)
  qed
qed

lemma scan_step_kept:
  assumes "split_advances split" and "buffer_inv cb" and "buf cb \<noteq> []"
  shows "(\<exists>ok s1. scan_step split s cb = Inr (Inl (ok, s1, cb))) \<or>
         (\<exists>s1 cb1. scan_step split s cb = Inr (Inr (s1, cb1)) \<and> buffer_kept cb cb1)"
proof -
  from scan_try_token_no_panic [OF assms(1), of s] obtain r where
    t: "scan_try_token split s = Inr r" by blast
  show ?thesis
  proof (cases r)
    case (Inl a)
    with t show ?thesis by (cases a) (auto simp: scan_step_def)
  next
    case (Inr s1)
    show ?thesis
    proof (cases "serr s1 \<noteq> None")
      case True
      with t Inr show ?thesis by (auto simp: scan_step_def)
    next
      case False
      show ?thesis
      proof (cases "scan_make_room s1")
        case (Inl a)
        with t Inr False show ?thesis by (cases a) (auto simp: scan_step_def)
      next
        case mr: (Inr s2)
        from read_loop_kept [OF assms(2,3), of maxConsecutiveEmptyReads s2] obtain s3 cb1 where
          "read_loop maxConsecutiveEmptyReads s2 cb = Inr (s3, cb1)" "buffer_kept cb cb1"
          by blast
        with t Inr False mr show ?thesis by (simp add: scan_step_def)
      qed
    qed
  qed
qed

lemma scan_loop_kept:
  assumes "split_advances split" and "buffer_inv cb" and "buf cb \<noteq> []"
  shows "\<exists>ok s1 cb1. scan_loop split s cb = Inr (ok, s1, cb1) \<and> buffer_kept cb cb1"
  using assms
proof (induction split s cb rule: scan_loop.induct)
  case (1 split s cb)
  from scan_step_kept [OF "1.prems", of s] show ?case
  proof
    assume "\<exists>ok s1. scan_step split s cb = Inr (Inl (ok, s1, cb))"
    then show ?thesis
      using "1.prems"(2) by (subst scan_loop.simps) (auto simp: buffer_kept_def)
  next
    assume "\<exists>s1 cb1. scan_step split s cb = Inr (Inr (s1, cb1)) \<and> buffer_kept cb cb1"
    then obtain s1 cb1 where
      st: "scan_step split s cb = Inr (Inr (s1, cb1))" and k: "buffer_kept cb cb1"
      by blast
    from k "1.prems" have c1: "buffer_inv cb1" "buf cb1 \<noteq> []" by (simp_all add: buffer_kept_def)
    from "1.IH" [OF st refl refl "1.prems"(1) c1] obtain ok s2 cb2 where
      r: "scan_loop split s1 cb1 = Inr (ok, s2, cb2)" and k2: "buffer_kept cb1 cb2"
      by blast
    from buffer_kept_trans [OF k k2] r st show ?thesis
      by (subst scan_loop.simps) simp
  qed
qed

lemma consumer_body_kept:
  assumes "split_advances (splitter f)" and "buffer_inv (cbuf f)" and "buf (cbuf f) \<noteq> []"
  shows "\<exists>f1. consumer_body f = Inr f1 \<and> buffer_kept (cbuf f) (cbuf f1) \<and>
           splitter f1 = splitter f \<and> Interpreters f1 = Interpreters f"
proof -
  have "\<exists>ok s1 cb1. Scan (splitter f) (scanner f) (cbuf f) = Inr (ok, s1, cb1) \<and>
          buffer_kept (cbuf f) cb1"
  proof (cases "sdone (scanner f)")
    case True
    with assms(2) show ?thesis by (auto simp: Scan_def buffer_kept_def)
  next
    case False
    with scan_loop_kept [OF assms, of "scanner f"] show ?thesis by (simp add: Scan_def)
  qed
  then obtain ok s1 cb1 where
    sc: "Scan (splitter f) (scanner f) (cbuf f) = Inr (ok, s1, cb1)"
    and k: "buffer_kept (cbuf f) cb1"
    by blast
  then show ?thesis by (simp add: consumer_body_def Let_def)
qed















lemma JSONSplit_advances: "split_advances JSONSplit"
  by (auto simp: split_advances_def JSONSplit_def Let_def split: if_splits option.splits)

lemma NewFilter_open:
  "\<exists>f0. NewFilter split terps = Inr f0 \<and> engine_open f0 \<and> splitter f0 = split"
  by (simp add: NewFilter_def NewCircularBuffer_eq engine_open_def buffer_inv_def make_chan_def)

lemma Filter_Write_open:
  assumes "engine_open f"
  shows "\<exists>f1 n err. Filter_Write f p = Inr (f1, n, err) \<and> engine_open f1 \<and>
           splitter f1 = splitter f"
proof (cases "int (length p) > int (length (buf (cbuf f))) - len (cbuf f)")
  case True
  with assms show ?thesis by (simp add: Filter_Write_def Write_def engine_open_def)
next
  case False
  from assms have inv: "buffer_inv (cbuf f)" and ne: "buf (cbuf f) \<noteq> []"
    and o: "\<not> closed (cbuf f)" "\<not> chclosed (C (cbuf f))"
    by (simp_all add: engine_open_def)
  from False have fit: "int (length p) \<le> int (length (buf (cbuf f))) - len (cbuf f)" by simp
  from write_at_tail_contents [OF inv ne fit] obtain c1 where
    w: "write_at_tail (cbuf f) p = Inr (c1, int (length p), None)" and
    c1: "buffer_inv c1" "length (buf c1) = length (buf (cbuf f))" "closed c1 = closed (cbuf f)"
      "C c1 = (if len (cbuf f) + int (length p) \<noteq> 0 \<and> \<not> closed (cbuf f)
                   then (C (cbuf f))\<lparr>pending := True\<rparr> else C (cbuf f))"
    by blast
  from c1(2) ne have ne1: "buf c1 \<noteq> []" by auto
  from c1(4) o have ch1: "\<not> chclosed (C c1)" by (simp split: if_splits)
  from False o w have "Filter_Write f p = Inr (f\<lparr>cbuf := c1\<rparr>, int (length p), None)"
    by (simp add: Filter_Write_def Write_def)
  with c1 ne1 ch1 o show ?thesis by (simp add: engine_open_def)
qed

lemma consumer_step_open:
  assumes "engine_open f" and "split_advances (splitter f)"
  shows "consumer_loop (Suc 0) f = Inr (Waiting f) \<or>
         (\<exists>f1. consumer_loop (Suc 0) f = Inr (Running f1) \<and> engine_open f1 \<and>
            splitter f1 = splitter f)"
proof (cases "pending (C (cbuf f))")
  case False
  with assms(1) show ?thesis by (simp add: chan_recv_def engine_open_def)
next
  case True
  define f0 where "f0 = f\<lparr>cbuf := (cbuf f)\<lparr>C := (C (cbuf f))\<lparr>pending := False\<rparr>\<rparr>\<rparr>"
  from True have rc: "chan_recv (C (cbuf f)) = Some ((C (cbuf f))\<lparr>pending := False\<rparr>)"
    by (simp add: chan_recv_def)
  from assms have f0: "split_advances (splitter f0)" "buffer_inv (cbuf f0)" "buf (cbuf f0) \<noteq> []"
    "\<not> closed (cbuf f0)" "\<not> chclosed (C (cbuf f0))" "splitter f0 = splitter f"
    by (auto simp: f0_def engine_open_def buffer_inv_def)
  from consumer_body_kept [OF f0(1-3)] obtain f1 where
    b: "consumer_body f0 = Inr f1" and k: "buffer_kept (cbuf f0) (cbuf f1)"
    and sp: "splitter f1 = splitter f0"
    by blast
  from k f0 have "engine_open f1" by (simp add: buffer_kept_def engine_open_def)
  moreover from rc b have "consumer_loop (Suc 0) f = Inr (Running f1)" by (simp add: f0_def)
  ultimately show ?thesis using sp f0(6) by simp
qed

lemma engine_run_open:
  assumes "split_advances (splitter f)" and "engine_open f"
    and "st = Waiting f \<or> st = Running f"
  shows "\<exists>g. (engine_run es st = Inr (Waiting g) \<or> engine_run es st = Inr (Running g)) \<and>
           engine_open g"
  using assms
proof (induction es arbitrary: st f)
  case Nil
  then show ?case by auto
next
  case (Cons ev es)
  show ?case
  proof (cases ev)
    case (EvWrite p)
    from Filter_Write_open [OF Cons.prems(2), of p] obtain f1 n err where
      w: "Filter_Write f p = Inr (f1, n, err)" and o: "engine_open f1"
      and sp: "splitter f1 = splitter f"
      by blast
    from Cons.prems(3) have e: "engine_of st = f"
      and st1: "with_engine st f1 = Waiting f1 \<or> with_engine st f1 = Running f1"
      by auto
    from Cons.prems(1) sp have sa: "split_advances (splitter f1)" by simp
    from Cons.IH [OF sa o st1] show ?thesis by (simp add: EvWrite e w)
  next
    case EvWake
    from Cons.prems(3) have e: "engine_of st = f" by auto
    from Cons.prems(3) have
      run: "engine_run (EvWake # es) st =
        (case consumer_loop (Suc 0) f of Inl pn \<Rightarrow> Inl pn | Inr st1 \<Rightarrow> engine_run es st1)"
      by auto
    from consumer_step_open [OF Cons.prems(2,1)] show ?thesis
    proof
      assume c: "consumer_loop (Suc 0) f = Inr (Waiting f)"
      from Cons.IH [OF Cons.prems(1,2), of "Waiting f"] show ?thesis
        unfolding EvWake run c by simp
    next
      assume "\<exists>f1. consumer_loop (Suc 0) f = Inr (Running f1) \<and> engine_open f1 \<and>
            splitter f1 = splitter f"
      then obtain f1 where c: "consumer_loop (Suc 0) f = Inr (Running f1)"
        and o: "engine_open f1" and sp: "splitter f1 = splitter f"
        by blast
      from Cons.prems(1) sp have sa: "split_advances (splitter f1)" by simp
      from Cons.IH [OF sa o, of "Running f1"] show ?thesis
        unfolding EvWake run c by simp
    qed
  qed
qed

text \<open>The loop on a closed buffer: every receive succeeds, and the loop goes on.\<close>

lemma consumer_loop_closed:
  assumes "split_advances (splitter f)" and "buffer_inv (cbuf f)" and "buf (cbuf f) \<noteq> []"
    and "closed (cbuf f)" and "chclosed (C (cbuf f))"
  shows "\<exists>g. consumer_loop n f = Inr (Running g) \<and> closed (cbuf g) \<and> chclosed (C (cbuf g)) \<and>
           len (cbuf g) \<le> len (cbuf f) \<and> buffer_inv (cbuf g)"
  using assms
proof (induction n arbitrary: f)
  case 0
  then show ?case by simp
next
  case (Suc n)
  obtain ch where rc: "chan_recv (C (cbuf f)) = Some ch" and ch: "chclosed ch"
    using Suc.prems(5) by (cases "pending (C (cbuf f))") (auto simp: chan_recv_def)
  define f0 where "f0 = f\<lparr>cbuf := (cbuf f)\<lparr>C := ch\<rparr>\<rparr>"
  from Suc.prems ch have f0: "split_advances (splitter f0)" "buffer_inv (cbuf f0)"
    "buf (cbuf f0) \<noteq> []" "closed (cbuf f0)" "chclosed (C (cbuf f0))" "len (cbuf f0) = len (cbuf f)"
    by (auto simp: f0_def buffer_inv_def)
  from consumer_body_kept [OF f0(1-3)] obtain f1 where
    b: "consumer_body f0 = Inr f1" and k: "buffer_kept (cbuf f0) (cbuf f1)"
    and sp: "splitter f1 = splitter f0"
    by blast
  from k f0 sp have f1: "split_advances (splitter f1)" "buffer_inv (cbuf f1)"
    "buf (cbuf f1) \<noteq> []" "closed (cbuf f1)" "chclosed (C (cbuf f1))"
    "len (cbuf f1) \<le> len (cbuf f)"
    by (simp_all add: buffer_kept_def)
  from Suc.IH [OF f1(1-5)] obtain g where
    "consumer_loop n f1 = Inr (Running g)" "closed (cbuf g)" "chclosed (C (cbuf g))"
    "len (cbuf g) \<le> len (cbuf f1)" "buffer_inv (cbuf g)"
    by blast
  with rc b f1(6) show ?case by (simp add: f0_def)
qed

text \<open>
  Claim C1, as the code has it. The consumer task has no way out of its loop. In every
  execution of a new filter through what the package exports (any number of calls of
  \<open>Write\<close> and of wake-ups of the task, in any order) the task neither returns nor
  panics: it is blocked on the signal or in its loop; and the ring buffer is never closed,
  as \<open>Filter\<close> has no operation that closes it. Should the buffer be closed all the same
  (\<open>Close\<close> of the circular buffer, which only code inside the package can call on the
  unexported field), the task does not exit either: from any state with the buffer and its
  channel closed, drained or not, the loop runs as many iterations as it is given, and a
  drained buffer stays closed and drained. The tokenizer is taken to advance with every
  token, as \<open>JSONSplit\<close> does (\<open>Scan\<close> panics on a hundred tokens without progress at the
  end of the input); interpreters and sink are functions that return.
\<close>

theorem consumer_task_never_exits:
  "(split_advances split \<longrightarrow>
      (\<exists>f0. NewFilter split terps = Inr f0 \<and>
         (\<forall>es. \<exists>f. (engine_run es (Running f0) = Inr (Waiting f) \<or>
                     engine_run es (Running f0) = Inr (Running f)) \<and>
                    \<not> closed (cbuf f)))) \<and>
   (split_advances (splitter f) \<and> buffer_inv (cbuf f) \<and> buf (cbuf f) \<noteq> [] \<and>
    closed (cbuf f) \<and> chclosed (C (cbuf f)) \<longrightarrow>
      (\<exists>g. consumer_loop n f = Inr (Running g) \<and> closed (cbuf g) \<and> chclosed (C (cbuf g)) \<and>
           (Len (cbuf f) = 0 \<longrightarrow> Len (cbuf g) = 0)))"
proof (intro conjI impI)
  assume sa: "split_advances split"
  from NewFilter_open [of split terps] obtain f0 where
    n: "NewFilter split terps = Inr f0" and o: "engine_open f0" and sp: "splitter f0 = split"
    by blast
  from sa sp have sa0: "split_advances (splitter f0)" by simp
  have "\<exists>f. (engine_run es (Running f0) = Inr (Waiting f) \<or>
              engine_run es (Running f0) = Inr (Running f)) \<and> \<not> closed (cbuf f)" for es
    using engine_run_open [OF sa0 o, of "Running f0" es] by (auto simp: engine_open_def)
  with n show "\<exists>f0. NewFilter split terps = Inr f0 \<and>
         (\<forall>es. \<exists>f. (engine_run es (Running f0) = Inr (Waiting f) \<or>
                     engine_run es (Running f0) = Inr (Running f)) \<and>
                    \<not> closed (cbuf f))"
    by blast
next
  assume a: "split_advances (splitter f) \<and> buffer_inv (cbuf f) \<and> buf (cbuf f) \<noteq> [] \<and>
    closed (cbuf f) \<and> chclosed (C (cbuf f))"
  then have a': "split_advances (splitter f)" "buffer_inv (cbuf f)" "buf (cbuf f) \<noteq> []"
    "closed (cbuf f)" "chclosed (C (cbuf f))"
    by simp_all
  from consumer_loop_closed [OF a', of n] obtain g where
    g: "consumer_loop n f = Inr (Running g)" "closed (cbuf g)" "chclosed (C (cbuf g))"
    "len (cbuf g) \<le> len (cbuf f)" "buffer_inv (cbuf g)"
    by blast
  from g(4,5) have "Len (cbuf f) = 0 \<longrightarrow> Len (cbuf g) = 0"
    by (simp add: Len_def buffer_inv_def)
  with g show "\<exists>g. consumer_loop n f = Inr (Running g) \<and> closed (cbuf g) \<and> chclosed (C (cbuf g)) \<and>
           (Len (cbuf f) = 0 \<longrightarrow> Len (cbuf g) = 0)"
    by blast
qed

lemma NewFilter_closed:
  "\<exists>f0 cb. NewFilter split terps = Inr f0 \<and> Close (cbuf f0) = Inr cb \<and>
     splitter (f0\<lparr>cbuf := cb\<rparr>) = split \<and> buffer_inv cb \<and> buf cb \<noteq> [] \<and> closed cb \<and>
     chclosed (C cb) \<and> len cb = 0"
  by (simp add: NewFilter_def NewCircularBuffer_eq Close_def chan_close_def make_chan_def
      buffer_inv_def)

theorem consumer_task_never_exits_witness:
  \<open>split_advances JSONSplit \<and>
   (\<exists>f0 f cb g.
      NewFilter JSONSplit [raw_interpreter] = Inr f0 \<and>
      (engine_run [EvWrite ''{"a":1}'', EvWake, EvWake] (Running f0) = Inr (Waiting f) \<or>
       engine_run [EvWrite ''{"a":1}'', EvWake, EvWake] (Running f0) = Inr (Running f)) \<and>
      Close (cbuf f0) = Inr cb \<and> buffer_inv cb \<and> buf cb \<noteq> [] \<and> closed cb \<and> chclosed (C cb) \<and>
      Len cb = 0 \<and>
      consumer_loop 3 (f0\<lparr>cbuf := cb\<rparr>) = Inr (Running g) \<and> closed (cbuf g) \<and> Len (cbuf g) = 0)\<close>
proof -
  from NewFilter_closed [of JSONSplit "[raw_interpreter]"] obtain f0 cb where
    n: "NewFilter JSONSplit [raw_interpreter] = Inr f0" and c: "Close (cbuf f0) = Inr cb"
    and cb: "splitter (f0\<lparr>cbuf := cb\<rparr>) = JSONSplit" "buffer_inv cb" "buf cb \<noteq> []" "closed cb"
      "chclosed (C cb)" "len cb = 0"
    by blast
  note t = consumer_task_never_exits [of JSONSplit "[raw_interpreter]" "f0\<lparr>cbuf := cb\<rparr>" 3]
  from t [THEN conjunct1, THEN mp, OF JSONSplit_advances] n have
    "\<forall>es. \<exists>f. (engine_run es (Running f0) = Inr (Waiting f) \<or>
                engine_run es (Running f0) = Inr (Running f)) \<and> \<not> closed (cbuf f)"
    by auto
  then obtain f where
    r: \<open>engine_run [EvWrite ''{"a":1}'', EvWake, EvWake] (Running f0) = Inr (Waiting f) \<or>
       engine_run [EvWrite ''{"a":1}'', EvWake, EvWake] (Running f0) = Inr (Running f)\<close>
    by blast
  have h: "split_advances (splitter (f0\<lparr>cbuf := cb\<rparr>)) \<and> buffer_inv (cbuf (f0\<lparr>cbuf := cb\<rparr>)) \<and>
      buf (cbuf (f0\<lparr>cbuf := cb\<rparr>)) \<noteq> [] \<and> closed (cbuf (f0\<lparr>cbuf := cb\<rparr>)) \<and>
      chclosed (C (cbuf (f0\<lparr>cbuf := cb\<rparr>)))"
    using cb JSONSplit_advances by simp
  from t [THEN conjunct2, THEN mp, OF h] cb(6) obtain g where
    g: "consumer_loop 3 (f0\<lparr>cbuf := cb\<rparr>) = Inr (Running g)" "closed (cbuf g)" "Len (cbuf g) = 0"
    by (auto simp: Len_def)
  have \<open>NewFilter JSONSplit [raw_interpreter] = Inr f0 \<and>
      (engine_run [EvWrite ''{"a":1}'', EvWake, EvWake] (Running f0) = Inr (Waiting f) \<or>
       engine_run [EvWrite ''{"a":1}'', EvWake, EvWake] (Running f0) = Inr (Running f)) \<and>
      Close (cbuf f0) = Inr cb \<and> buffer_inv cb \<and> buf cb \<noteq> [] \<and> closed cb \<and> chclosed (C cb) \<and>
      Len cb = 0 \<and>
      consumer_loop 3 (f0\<lparr>cbuf := cb\<rparr>) = Inr (Running g) \<and> closed (cbuf g) \<and> Len (cbuf g) = 0\<close>
    using n r c cb(2-6) g by (simp add: Len_def)
  then have \<open>\<exists>f0 f cb g.
      NewFilter JSONSplit [raw_interpreter] = Inr f0 \<and>
      (engine_run [EvWrite ''{"a":1}'', EvWake, EvWake] (Running f0) = Inr (Waiting f) \<or>
       engine_run [EvWrite ''{"a":1}'', EvWake, EvWake] (Running f0) = Inr (Running f)) \<and>
      Close (cbuf f0) = Inr cb \<and> buffer_inv cb \<and> buf cb \<noteq> [] \<and> closed cb \<and> chclosed (C cb) \<and>
      Len cb = 0 \<and>
      consumer_loop 3 (f0\<lparr>cbuf := cb\<rparr>) = Inr (Running g) \<and> closed (cbuf g) \<and> Len (cbuf g) = 0\<close>
    by (intro exI)
  with JSONSplit_advances show ?thesis by (rule conjI)
qed

theorem consumer_exits_when_drained_counterexample:
  "(case NewFilter JSONSplit [raw_interpreter] of
      Inr f0 \<Rightarrow>
        (case Close (cbuf f0) of
           Inr cb \<Rightarrow>
             closed cb \<and> Len cb = 0 \<and>
             (case consumer_loop 3 (f0\<lparr>cbuf := cb\<rparr>) of
                Inr (Running g) \<Rightarrow> closed (cbuf g) \<and> Len (cbuf g) = 0
              | _ \<Rightarrow> False)
         | Inl pn \<Rightarrow> False)
    | Inl pn \<Rightarrow> False)"
proof -
  from NewFilter_closed [of JSONSplit "[raw_interpreter]"] obtain f0 cb where
    n: "NewFilter JSONSplit [raw_interpreter] = Inr f0" and c: "Close (cbuf f0) = Inr cb"
    and cb: "splitter (f0\<lparr>cbuf := cb\<rparr>) = JSONSplit" "buffer_inv cb" "buf cb \<noteq> []" "closed cb"
      "chclosed (C cb)" "len cb = 0"
    by blast
  have "split_advances (splitter (f0\<lparr>cbuf := cb\<rparr>))" unfolding cb(1) by (rule JSONSplit_advances)
  from consumer_loop_closed [OF this, of 3] cb obtain g where
    g: "consumer_loop 3 (f0\<lparr>cbuf := cb\<rparr>) = Inr (Running g)" "closed (cbuf g)"
    "len (cbuf g) \<le> 0" "buffer_inv (cbuf g)"
    by auto
  from g(3,4) have "Len (cbuf g) = 0" by (simp add: Len_def buffer_inv_def)
  with n c cb g show ?thesis by (simp add: Len_def)
qed

text \<open>
  Claim C5, where the code departs from it. The body of the consumer's loop calls \<open>Scan\<close> once for each
  receive; it has no inner loop. For a new filter and one \<open>Write\<close> of at most 4000 bytes
  \<open>p\<close> on which the tokenizer finds a first token \<open>tok\<close> with advance \<open>adv\<close>, the task,
  however many iterations it is given, ends up blocked on the signal after exactly one call
  of the sink, for the fields of \<open>tok\<close>: the ring buffer is empty, so no signal is pending,
  and the rest \<open>drop adv p\<close> of the bytes written stays in the scanner's window, whatever
  it holds; a complete token there is not delivered before the task waits again.
\<close>

theorem consumer_strands_tokens:
  assumes "0 < length p" and "length p \<le> 4000"
    and "split p False = (adv, Some tok, None)"
    and "0 \<le> adv" and "adv \<le> int (length p)"
  shows "\<exists>f2. run_consumer (Suc (Suc n)) (filter_written split terps p) = Inr (Waiting f2) \<and>
           outputs f2 = [snd (run_interpreters terps tok Map.empty)] \<and>
           swindow (scanner f2) = drop (nat adv) p \<and> Len (cbuf f2) = 0"
  using assms by (rule consumer_one_token)

theorem consumer_strands_tokens_witness:
  \<open>0 < length ''{"a":1}{"b":2}'' \<and> length ''{"a":1}{"b":2}'' \<le> 4000 \<and>
   JSONSplit ''{"a":1}{"b":2}'' False = (7, Some ''{"a":1}'', None) \<and>
   (0::int) \<le> 7 \<and> 7 \<le> int (length ''{"a":1}{"b":2}'') \<and>
   (\<exists>f2. run_consumer (Suc (Suc 3)) (filter_written JSONSplit [raw_interpreter] ''{"a":1}{"b":2}'')
            = Inr (Waiting f2) \<and>
         outputs f2 = [[''raw'' \<mapsto> VString ''{"a":1}'']] \<and>
         swindow (scanner f2) = ''{"b":2}'' \<and> Len (cbuf f2) = 0 \<and>
         JSONSplit (swindow (scanner f2)) False = (7, Some ''{"b":2}'', None))\<close>
proof -
  have sp: \<open>JSONSplit ''{"a":1}{"b":2}'' False = (7, Some ''{"a":1}'', None)\<close>
    by (simp add: JSONSplit_def matchBrace.simps matchQuote.simps)
  have sp2: \<open>JSONSplit ''{"b":2}'' False = (7, Some ''{"b":2}'', None)\<close>
    by (simp add: JSONSplit_def matchBrace.simps matchQuote.simps)
  from consumer_strands_tokens [of \<open>''{"a":1}{"b":2}''\<close> JSONSplit 7 \<open>''{"a":1}''\<close> 3 "[raw_interpreter]", OF _ _ sp]
  obtain f2 where
    \<open>run_consumer (Suc (Suc 3)) (filter_written JSONSplit [raw_interpreter] ''{"a":1}{"b":2}'')
            = Inr (Waiting f2)\<close>
    \<open>outputs f2 = [[''raw'' \<mapsto> VString ''{"a":1}'']]\<close>
    \<open>swindow (scanner f2) = ''{"b":2}''\<close> "Len (cbuf f2) = 0"
    by (auto simp: raw_interpreter_def)
  with sp sp2 show ?thesis by auto
qed

end
